theory Spec2Isabelle
  imports Main
begin

section \<open>C strings in fixed arrays\<close>

text \<open>
  A \<^verbatim>\<open>char\<close> array is a list of bytes; the string it holds is the run of bytes before
  the first NUL. An index outside the array is undefined behaviour in C: the model leaves
  the array as it is there (\<open>list_update\<close>), and the theorems carry the hypotheses
  that keep every index in range.
\<close>

abbreviation NUL :: char where
  "NUL \<equiv> CHR 0x00"

definition cstr :: "char list \<Rightarrow> string" where
  "cstr s = takeWhile (\<lambda>c. c \<noteq> NUL) s"

definition strlen :: "char list \<Rightarrow> nat" where
  "strlen s = length (cstr s)"

definition strnlen :: "char list \<Rightarrow> nat \<Rightarrow> nat" where
  "strnlen s n = strlen (take n s)"

section \<open>The console\<close>

text \<open>
  The display is a collaborator. \<open>putch\<close> appends a byte to the stream sent to it;
  \<open>get_cursor_pos\<close> is the column the display reports after the bytes sent so far
  (global \<^verbatim>\<open>cursorX\<close>), \<open>scrcols\<close> the width it reported.
\<close>

record console =
  get_cursor_pos :: "char list \<Rightarrow> nat"
  scrcols :: nat

definition putch :: "char \<Rightarrow> char list \<Rightarrow> char list" where
  "putch c out = out @ [c]"

definition printf_s :: "char list \<Rightarrow> char list \<Rightarrow> char list" where
  "printf_s s out = out @ cstr s"

definition doLeftCursor :: "console \<Rightarrow> char list \<Rightarrow> char list" where
  "doLeftCursor con out =
     (let cursorX = get_cursor_pos con out in
      if cursorX > 0 then putch (CHR 0x08) out
      else putch (CHR 0x0B) (out @ replicate (scrcols con - 1 - cursorX) (CHR 0x09)))"

definition doRightCursor :: "console \<Rightarrow> char list \<Rightarrow> char list" where
  "doRightCursor con out =
     (let cursorX = get_cursor_pos con out in
      if int cursorX < int (scrcols con) - 1 then putch (CHR 0x09) out
      else putch (CHR 0x0A) (out @ replicate cursorX (CHR 0x08)))"

section \<open>Line buffer primitives\<close>

text \<open>
  \<^verbatim>\<open>for (i = len; i >= insertPos; i--) buffer[i + 1] = buffer[i];\<close>
  with \<open>n\<close> the number of iterations left, so that \<open>i = insertPos + n - 1\<close>.
\<close>

fun shift_tail_right :: "char list \<Rightarrow> nat \<Rightarrow> nat \<Rightarrow> char list" where
  "shift_tail_right buffer insertPos 0 = buffer"
| "shift_tail_right buffer insertPos (Suc n) =
     shift_tail_right (buffer[insertPos + n + 1 := buffer ! (insertPos + n)]) insertPos n"

definition insertCharacter ::
  "console \<Rightarrow> char list \<Rightarrow> nat \<Rightarrow> char \<Rightarrow> nat \<Rightarrow> char list \<Rightarrow> bool \<times> char list \<times> char list" where
  "insertCharacter con buffer buffer_capacity c insertPos out =
     (let len = strnlen buffer buffer_capacity in
      if int len < int buffer_capacity - 1 then
        let out1 = putch c out;
            buffer1 = shift_tail_right buffer insertPos (len + 1 - insertPos);
            buffer2 = buffer1[insertPos := c];
            out2 = out1 @ map (\<lambda>i. buffer2 ! i) [insertPos + 1 ..< len + 1];
            count = len - insertPos
        in (True, buffer2, (doLeftCursor con ^^ count) out2)
      else (False, buffer, out))"

text \<open>
  \<^verbatim>\<open>for (i = insertPos - 1; i < len; i++, count++) { b = buffer[i + 1]; buffer[i] = b; putch(b ? b : ' '); }\<close>
  with \<open>n\<close> the number of iterations left.
\<close>

fun shift_tail_left :: "char list \<Rightarrow> char list \<Rightarrow> nat \<Rightarrow> nat \<Rightarrow> char list \<times> char list" where
  "shift_tail_left buffer out i 0 = (buffer, out)"
| "shift_tail_left buffer out i (Suc n) =
     (let b = buffer ! (i + 1)
      in shift_tail_left (buffer[i := b]) (putch (if b \<noteq> NUL then b else CHR '' '') out) (i + 1) n)"

definition deleteCharacter ::
  "console \<Rightarrow> char list \<Rightarrow> nat \<Rightarrow> nat \<Rightarrow> char list \<Rightarrow> bool \<times> char list \<times> char list" where
  "deleteCharacter con buffer insertPos len out =
     (if insertPos > 0 then
        let out1 = doLeftCursor con out;
            count = len - (insertPos - 1);
            (buffer1, out2) = shift_tail_left buffer out1 (insertPos - 1) count
        in (True, buffer1, (doLeftCursor con ^^ count) out2)
      else (False, buffer, out))"

text \<open>A sequence of insertions, each a character and a position, applied in order.\<close>

fun insert_sequence ::
  "console \<Rightarrow> nat \<Rightarrow> (char \<times> nat) list \<Rightarrow> char list \<Rightarrow> char list \<Rightarrow> char list \<times> char list" where
  "insert_sequence con N [] buffer out = (buffer, out)"
| "insert_sequence con N ((c, p) # ops) buffer out =
     (case insertCharacter con buffer N c p out of
        (ok, buffer', out') \<Rightarrow> insert_sequence con N ops buffer' out')"

section \<open>String helpers (strings.c)\<close>

text \<open>
  \<open>memcpy dst off src n\<close> is \<^verbatim>\<open>memcpy(dst + off, src, n)\<close>. With \<open>src\<close> the bytes
  that \<open>dst\<close> held before the call it is \<^verbatim>\<open>memmove\<close> as well.
  \<open>memset_buf buf c n\<close> is \<^verbatim>\<open>memset(buf, c, n)\<close>.
\<close>

primrec memcpy :: "char list \<Rightarrow> nat \<Rightarrow> char list \<Rightarrow> nat \<Rightarrow> char list" where
  "memcpy dst off src 0 = dst"
| "memcpy dst off src (Suc n) = (memcpy dst off src n)[off + n := src ! n]"

definition memset_buf :: "char list \<Rightarrow> char \<Rightarrow> nat \<Rightarrow> char list" where
  "memset_buf buf c n = replicate (min n (length buf)) c @ drop n buf"

text \<open>
  The allocator is a collaborator: \<open>umm_malloc n\<close> tells whether a request for \<open>n\<close>
  bytes is granted. An owned string is the value it holds; \<open>None\<close> is the NULL pointer.
\<close>

definition mos_strndup :: "(nat \<Rightarrow> bool) \<Rightarrow> char list \<Rightarrow> nat \<Rightarrow> string option" where
  "mos_strndup umm_malloc s n =
     (let len = strnlen s n
      in if umm_malloc (len + 1) then Some (take len s) else None)"

definition strbuf_append :: "char list \<Rightarrow> nat \<Rightarrow> char list \<Rightarrow> nat \<Rightarrow> char list" where
  "strbuf_append buf buf_capacity str_to_append max_chars_to_append =
     (let src_len = strnlen str_to_append max_chars_to_append;
          insert_loc = strnlen buf buf_capacity;
          count = min (int src_len) (int buf_capacity - int insert_loc - 1);
          buf1 = (if count > 0 then memcpy buf insert_loc str_to_append (nat count) else buf)
      in buf1[nat (int insert_loc + count) := NUL])"

definition strbuf_insert :: "char list \<Rightarrow> nat \<Rightarrow> char list \<Rightarrow> nat \<Rightarrow> char list \<times> int" where
  "strbuf_insert buf buf_capacity src insert_loc =
     (let src_len = int (strlen src);
          dest_tail_len = int (strlen (drop insert_loc buf)) + 1;
          count = min dest_tail_len (int buf_capacity - int insert_loc - src_len - 1);
          buf1 = (if count > 0
                  then memcpy buf (insert_loc + nat src_len) (drop insert_loc buf) (nat count)
                  else buf);
          buf2 = buf1[nat (int insert_loc + src_len + count) := NUL];
          count2 = min src_len (int buf_capacity - int insert_loc - 1);
          buf3 = (if count2 > 0 then memcpy buf2 insert_loc src (nat count2) else buf2)
      in (buf3, count2))"

section \<open>Cursor to the ends of the line, erasing the line\<close>

definition gotoEditLineStart :: "console \<Rightarrow> nat \<Rightarrow> char list \<Rightarrow> nat \<times> char list" where
  "gotoEditLineStart con insertPos out = (0, (doLeftCursor con ^^ insertPos) out)"

definition gotoEditLineEnd :: "console \<Rightarrow> nat \<Rightarrow> nat \<Rightarrow> char list \<Rightarrow> nat \<times> char list" where
  "gotoEditLineEnd con insertPos len out =
     (max insertPos len, (doRightCursor con ^^ (len - insertPos)) out)"

definition removeEditLine ::
  "console \<Rightarrow> char list \<Rightarrow> nat \<Rightarrow> nat \<Rightarrow> char list \<Rightarrow> char list \<times> char list" where
  "removeEditLine con buffer insertPos len out =
     (let out1 = snd (gotoEditLineStart con insertPos out);
          buffer1 = memset_buf buffer (CHR '' '') len;
          out2 = printf_s buffer1 out1;
          buffer2 = buffer1[0 := NUL]
      in (buffer2, snd (gotoEditLineStart con len out2)))"

text \<open>
  \<^verbatim>\<open>deleteWord\<close>: the two loops, with the \<open>n\<close> characters before the cursor as fuel
  (each round deletes one, so neither loop runs more than \<open>insertPos\<close> times); the count
  deleted is a \<^verbatim>\<open>uint8_t\<close>.
\<close>

fun deleteWord_loop ::
  "console \<Rightarrow> bool \<Rightarrow> nat \<Rightarrow> nat \<Rightarrow> char list \<Rightarrow> nat \<Rightarrow> nat \<Rightarrow> char list
    \<Rightarrow> char list \<times> nat \<times> nat \<times> char list" where
  "deleteWord_loop con spaces 0 len buffer insertPos num_deleted out =
     (buffer, insertPos, num_deleted, out)"
| "deleteWord_loop con spaces (Suc n) len buffer insertPos num_deleted out =
     (if insertPos > 0 \<and> ((buffer ! (insertPos - 1) = CHR '' '') = spaces) then
        (case deleteCharacter con buffer insertPos len out of
           (ok, buffer', out') \<Rightarrow>
             deleteWord_loop con spaces n len buffer' (insertPos - 1) ((num_deleted + 1) mod 256) out')
      else (buffer, insertPos, num_deleted, out))"

definition deleteWord ::
  "console \<Rightarrow> char list \<Rightarrow> nat \<Rightarrow> nat \<Rightarrow> char list \<Rightarrow> nat \<times> char list \<times> char list" where
  "deleteWord con buffer insertPos len out =
     (case deleteWord_loop con True insertPos len buffer insertPos 0 out of
        (buffer1, insertPos1, num_deleted1, out1) \<Rightarrow>
          (case deleteWord_loop con False insertPos1 len buffer1 insertPos1 num_deleted1 out1 of
             (buffer2, insertPos2, num_deleted2, out2) \<Rightarrow> (num_deleted2, buffer2, out2)))"

section \<open>Command history\<close>

text \<open>
  The globals \<^verbatim>\<open>cmd_history\<close> (an array of \<^verbatim>\<open>cmd_historyDepth\<close> pointers),
  \<^verbatim>\<open>history_size\<close> and \<^verbatim>\<open>history_no\<close>. The depth is a macro of a header that is
  not part of the sources at hand, so it is a parameter. Reading through a NULL entry is
  undefined behaviour: the functions that would do so return \<open>None\<close>.
\<close>

record history =
  cmd_history :: "string option list"
  history_size :: nat
  history_no :: nat

definition editHistoryInit :: "nat \<Rightarrow> history" where
  "editHistoryInit cmd_historyDepth =
     \<lparr>cmd_history = replicate cmd_historyDepth None, history_size = 0, history_no = 0\<rparr>"

text \<open>
  \<^verbatim>\<open>for (i = 1; i < history_size; i++) cmd_history[i - 1] = cmd_history[i];\<close>
  with \<open>n\<close> the number of iterations left.
\<close>

fun shift_entries_down :: "string option list \<Rightarrow> nat \<Rightarrow> nat \<Rightarrow> string option list" where
  "shift_entries_down h i 0 = h"
| "shift_entries_down h i (Suc n) = shift_entries_down (h[i - 1 := h ! i]) (i + 1) n"

definition history_store :: "nat \<Rightarrow> history \<Rightarrow> string option \<Rightarrow> history" where
  "history_store cmd_historyDepth h newEntry =
     (let h1 = (if history_size h = cmd_historyDepth
                then h\<lparr>cmd_history := shift_entries_down (cmd_history h) 1 (history_size h - 1),
                        history_size := history_size h - 1\<rparr>
                else h)
      in h1\<lparr>cmd_history := (cmd_history h1)[history_size h1 := newEntry],
             history_size := history_size h1 + 1\<rparr>)"

definition editHistoryPush ::
  "(nat \<Rightarrow> bool) \<Rightarrow> nat \<Rightarrow> history \<Rightarrow> char list \<Rightarrow> nat \<Rightarrow> history option" where
  "editHistoryPush umm_malloc cmd_historyDepth h buffer buffer_capacity =
     (let len = strnlen buffer buffer_capacity in
      if len > 0 then
        (if history_size h > 0 then
           (case cmd_history h ! (history_size h - 1) of
              None \<Rightarrow> None
            | Some last_entry \<Rightarrow>
                if cstr buffer = last_entry then Some h
                else Some (history_store cmd_historyDepth h
                             (mos_strndup umm_malloc buffer buffer_capacity)))
         else Some (history_store cmd_historyDepth h
                      (mos_strndup umm_malloc buffer buffer_capacity)))
      else Some h)"

definition editHistorySet ::
  "console \<Rightarrow> history \<Rightarrow> char list \<Rightarrow> nat \<Rightarrow> nat \<Rightarrow> nat \<Rightarrow> int \<Rightarrow> char list
    \<Rightarrow> (bool \<times> history \<times> char list \<times> char list) option" where
  "editHistorySet con h buffer buffer_capacity insertPos len index out =
     (if index \<ge> 0 \<and> index < int (history_size h) then
        (case cmd_history h ! nat index of
           None \<Rightarrow> None
         | Some entry \<Rightarrow>
             (case removeEditLine con buffer insertPos len out of
                (buffer1, out1) \<Rightarrow>
                  Some (True, h\<lparr>history_no := nat index\<rparr>,
                        strbuf_append (buffer1[0 := NUL]) buffer_capacity entry (buffer_capacity - 1),
                        out1)))
      else Some (False, h, buffer, out))"

definition editHistoryUp ::
  "console \<Rightarrow> history \<Rightarrow> char list \<Rightarrow> nat \<Rightarrow> nat \<Rightarrow> nat \<Rightarrow> char list
    \<Rightarrow> (bool \<times> history \<times> char list \<times> char list) option" where
  "editHistoryUp con h buffer buffer_capacity insertPos len out =
     (let index = (if history_no h > 0 then int (history_no h) - 1
                   else if history_size h > 0 then 0 else - 1)
      in editHistorySet con h buffer buffer_capacity insertPos len index out)"

definition editHistoryDown ::
  "console \<Rightarrow> history \<Rightarrow> char list \<Rightarrow> nat \<Rightarrow> nat \<Rightarrow> nat \<Rightarrow> char list
    \<Rightarrow> (bool \<times> history \<times> char list \<times> char list) option" where
  "editHistoryDown con h buffer buffer_capacity insertPos len out =
     (if history_no h < history_size h then
        (if int (history_no h) = int (history_size h) - 1 then
           (case removeEditLine con buffer insertPos len out of
              (buffer1, out1) \<Rightarrow> Some (True, h\<lparr>history_no := history_size h\<rparr>, buffer1, out1))
         else
           (let h1 = h\<lparr>history_no := history_no h + 1\<rparr>
            in editHistorySet con h1 buffer buffer_capacity insertPos len (int (history_no h1)) out))
      else Some (False, h, buffer, out))"

text \<open>A sequence of submitted lines, each in its buffer, pushed in order.\<close>

fun push_sequence ::
  "(nat \<Rightarrow> bool) \<Rightarrow> nat \<Rightarrow> nat \<Rightarrow> char list list \<Rightarrow> history \<Rightarrow> history option" where
  "push_sequence umm_malloc cmd_historyDepth cap [] h = Some h"
| "push_sequence umm_malloc cmd_historyDepth cap (b # bs) h =
     (case editHistoryPush umm_malloc cmd_historyDepth h b cap of
        None \<Rightarrow> None
      | Some h' \<Rightarrow> push_sequence umm_malloc cmd_historyDepth cap bs h')"

section \<open>Hotkeys\<close>

text \<open>\<^verbatim>\<open>strstr\<close>: the offset of the first occurrence of the needle, \<open>None\<close> for NULL.\<close>

fun strstr :: "string \<Rightarrow> string \<Rightarrow> nat option" where
  "strstr [] needle = (if needle = [] then Some 0 else None)"
| "strstr (c # cs) needle =
     (if take (length needle) (c # cs) = needle then Some 0
      else map_option Suc (strstr cs needle))"

text \<open>
  \<^verbatim>\<open>handleHotkey\<close>. The three lengths are \<^verbatim>\<open>uint8_t\<close>. The block obtained from
  \<^verbatim>\<open>umm_malloc\<close> is not initialised; only its first byte, set to 0 before use, is read
  before being written, so it is taken as zeros.
\<close>

definition handleHotkey ::
  "console \<Rightarrow> (nat \<Rightarrow> bool) \<Rightarrow> (nat \<Rightarrow> string option) \<Rightarrow> nat \<Rightarrow> char list \<Rightarrow> nat \<Rightarrow> nat \<Rightarrow> nat
    \<Rightarrow> char list \<Rightarrow> bool \<times> char list \<times> char list" where
  "handleHotkey con umm_malloc hotkey_strings fkey buffer bufferLength insertPos len out =
     (case hotkey_strings fkey of
        None \<Rightarrow> (False, buffer, out)
      | Some hotkey \<Rightarrow>
          (case strstr hotkey ''%s'' of
             None \<Rightarrow>
               (case removeEditLine con buffer insertPos len out of
                  (buffer1, out1) \<Rightarrow>
                    (let buffer2 = strbuf_append (buffer1[0 := NUL]) bufferLength hotkey bufferLength
                     in (True, buffer2, printf_s buffer2 out1)))
           | Some wildcardPos \<Rightarrow>
               (let prefixLength = wildcardPos mod 256;
                    replacementLength = strlen buffer mod 256;
                    suffixLength = strlen (drop (wildcardPos + 2) hotkey) mod 256
                in if prefixLength + replacementLength + suffixLength + 1 \<ge> bufferLength
                   then (False, buffer, putch (CHR 0x07) out)
                   else
                     (let result_capacity = prefixLength + replacementLength + suffixLength + 1
                      in if \<not> umm_malloc result_capacity then (False, buffer, out)
                         else
                           (let result0 = (replicate result_capacity NUL)[0 := NUL];
                                result1 = strbuf_append result0 result_capacity hotkey prefixLength;
                                result2 = strbuf_append result1 result_capacity buffer
                                            (strnlen buffer bufferLength);
                                result3 = strbuf_append result2 result_capacity
                                            (drop (wildcardPos + 2) hotkey) result_capacity
                            in (case removeEditLine con buffer insertPos len out of
                                  (buffer1, out1) \<Rightarrow>
                                    (let buffer2 = strbuf_append (buffer1[0 := NUL]) bufferLength
                                                     result3 result_capacity
                                     in (True, buffer2, printf_s buffer2 out1))))))))"

section \<open>Tab completion\<close>

text \<open>
  The collaborators of the editor. \<open>f_find dir pattern\<close> is the enumeration that
  \<^verbatim>\<open>f_findfirst\<close> and \<^verbatim>\<open>f_findnext\<close> deliver before they report an error or the
  end (an empty name): each entry a name and whether it is a directory.
  \<open>vec_push_ok n\<close> tells whether the candidate vector, holding \<open>n\<close> items, can take one
  more. \<open>expansion_size\<close> is \<^verbatim>\<open>sizeof(ctx->expansion)\<close> and \<open>byte_before_expansion\<close>
  what \<^verbatim>\<open>ctx->expansion[-1]\<close> reads: the layout of \<^verbatim>\<open>struct tab_expansion_context\<close>
  is declared in a header that is not part of the sources at hand. Listing the candidates
  and printing the prompt go through the pager and the colour settings, which are not
  modelled: they are given as the bytes they add to the output.
\<close>

datatype TabExpansionType = ExpandNormal | ExpandDirectory

record env =
  active_console :: console
  umm_malloc :: "nat \<Rightarrow> bool"
  hotkey_strings :: "nat \<Rightarrow> string option"
  mosCommands :: "string list"
  f_find :: "string \<Rightarrow> string \<Rightarrow> (string \<times> bool) list"
  cwd :: string
  vec_push_ok :: "nat \<Rightarrow> bool"
  expansion_size :: nat
  byte_before_expansion :: char
  cmd_historyDepth :: nat
  print_expansion_candidates :: "(TabExpansionType \<times> string) list \<Rightarrow> char list \<Rightarrow> char list"
  mos_print_prompt :: "char list \<Rightarrow> char list"

text \<open>
  The accumulator \<^verbatim>\<open>ctx->expansion\<close> is represented by the string it holds: the bytes
  after its terminator are never read.
\<close>

record tab_expansion_context =
  num_matches :: nat
  cmdline :: "char list"
  cmdline_insertpos :: nat
  expansion :: string
  candidates :: "(TabExpansionType \<times> string) list"

definition toupper :: "char \<Rightarrow> char" where
  "toupper c = (let n = (of_char c :: nat) in if 97 \<le> n \<and> n \<le> 122 then char_of (n - 32) else c)"

definition tolower :: "char \<Rightarrow> char" where
  "tolower c = (let n = (of_char c :: nat) in if 65 \<le> n \<and> n \<le> 90 then char_of (n + 32) else c)"

text \<open>\<^verbatim>\<open>strncasecmp(s1, s2, n) == 0\<close>\<close>

definition strncasecmp_eq :: "char list \<Rightarrow> char list \<Rightarrow> nat \<Rightarrow> bool" where
  "strncasecmp_eq s1 s2 n = (map tolower (take n (cstr s1)) = map tolower (take n (cstr s2)))"

text \<open>An \<^verbatim>\<open>int\<close> (24 bits on the eZ80) passed where a \<^verbatim>\<open>size_t\<close> is expected.\<close>

definition size_t_of :: "int \<Rightarrow> nat" where
  "size_t_of i = nat (i mod 2 ^ 24)"

text \<open>The bytes \<^verbatim>\<open>printf("%.*s", n, s)\<close> writes.\<close>

definition printf_prec :: "int \<Rightarrow> char list \<Rightarrow> char list" where
  "printf_prec n s = (if n < 0 then cstr s else take (nat n) (cstr s))"

text \<open>
  \<^verbatim>\<open>for (j = 0; j < strlen(ctx->expansion); j++)
    if (expansion[j] == 0 || toupper(ctx->expansion[j]) != toupper(expansion[j])) { ctx->expansion[j] = 0; break; }\<close>
  The second list is the argument \<^verbatim>\<open>expansion\<close>; its end is its terminator.
\<close>

fun truncate_expansion :: "string \<Rightarrow> char list \<Rightarrow> string" where
  "truncate_expansion [] es = []"
| "truncate_expansion (a # acc) [] = []"
| "truncate_expansion (a # acc) (e # es) =
     (if e = NUL \<or> toupper a \<noteq> toupper e then []
      else a # truncate_expansion acc es)"

definition notify_tab_expansion ::
  "env \<Rightarrow> bool \<Rightarrow> tab_expansion_context \<Rightarrow> TabExpansionType \<Rightarrow> char list \<Rightarrow> int \<Rightarrow> char list \<Rightarrow> int
    \<Rightarrow> char list \<Rightarrow> tab_expansion_context \<times> char list" where
  "notify_tab_expansion env showall ctx type fullExpansion fullExpansionLen expansion_arg expansionLen out =
     (let (ctx1, out1) =
            (if showall then
               (case mos_strndup (umm_malloc env) fullExpansion (size_t_of fullExpansionLen) of
                  None \<Rightarrow> (ctx, out @ printf_prec fullExpansionLen fullExpansion @ '' '')
                | Some e \<Rightarrow>
                    if vec_push_ok env (length (candidates ctx))
                    then (ctx\<lparr>candidates := candidates ctx @ [(type, e)]\<rparr>, out)
                    else (ctx, out @ printf_prec fullExpansionLen fullExpansion @ '' ''))
             else (ctx, out));
          ctx2 = (if num_matches ctx1 = 0 then
                    (let count = min (size_t_of expansionLen) (expansion_size env - 1)
                     in ctx1\<lparr>expansion := cstr (take count expansion_arg)\<rparr>)
                  else ctx1\<lparr>expansion := truncate_expansion (expansion ctx1) expansion_arg\<rparr>)
      in (ctx2\<lparr>num_matches := num_matches ctx2 + 1\<rparr>, out1))"

text \<open>\<^verbatim>\<open>try_tab_expand_internal_cmd\<close>: the loop over the command table.\<close>

fun try_tab_expand_internal_cmd ::
  "env \<Rightarrow> bool \<Rightarrow> string list \<Rightarrow> tab_expansion_context \<Rightarrow> char list
    \<Rightarrow> tab_expansion_context \<times> char list" where
  "try_tab_expand_internal_cmd env showall [] ctx out = (ctx, out)"
| "try_tab_expand_internal_cmd env showall (name # cmds) ctx out =
     (if strncasecmp_eq (cmdline ctx) name (cmdline_insertpos ctx) then
        (case notify_tab_expansion env showall ctx ExpandNormal name (int (strlen name))
                (drop (cmdline_insertpos ctx) name)
                (int (strlen name) - int (cmdline_insertpos ctx)) out of
           (ctx', out') \<Rightarrow> try_tab_expand_internal_cmd env showall cmds ctx' out')
      else try_tab_expand_internal_cmd env showall cmds ctx out)"

text \<open>One \<^verbatim>\<open>f_findfirst\<close>/\<^verbatim>\<open>f_findnext\<close> loop of \<^verbatim>\<open>try_tab_expand_bin_name\<close>.\<close>

fun bin_name_loop ::
  "env \<Rightarrow> bool \<Rightarrow> (string \<times> bool) list \<Rightarrow> tab_expansion_context \<Rightarrow> char list
    \<Rightarrow> tab_expansion_context \<times> char list" where
  "bin_name_loop env showall [] ctx out = (ctx, out)"
| "bin_name_loop env showall ((fname, is_dir) # entries) ctx out =
     (case notify_tab_expansion env showall ctx ExpandNormal fname (int (strlen fname) - 4)
             (drop (cmdline_insertpos ctx) fname)
             (int (strlen fname) - int (cmdline_insertpos ctx) - 4) out of
        (ctx', out') \<Rightarrow> bin_name_loop env showall entries ctx' out')"

definition try_tab_expand_bin_name ::
  "env \<Rightarrow> bool \<Rightarrow> tab_expansion_context \<Rightarrow> char list \<Rightarrow> tab_expansion_context \<times> char list" where
  "try_tab_expand_bin_name env showall ctx out =
     (let search_term0 = (replicate 128 NUL)[0 := NUL];
          search_term1 = strbuf_append search_term0 128 (cmdline ctx) (cmdline_insertpos ctx);
          search_term = cstr (strbuf_append search_term1 128 ''*.bin'' 128);
          (ctx1, out1) = bin_name_loop env showall (f_find env [] search_term) ctx out;
          (ctx2, out2) = (if cwd env \<noteq> ''/mos''
                          then bin_name_loop env showall (f_find env ''/mos/'' search_term) ctx1 out1
                          else (ctx1, out1))
      in if cwd env \<noteq> ''/bin''
         then bin_name_loop env showall (f_find env ''/bin/'' search_term) ctx2 out2
         else (ctx2, out2))"

text \<open>\<^verbatim>\<open>slice_strrchr(s, len, needle)\<close>: the last index below \<open>len\<close> that holds the needle.\<close>

fun slice_strrchr :: "char list \<Rightarrow> nat \<Rightarrow> char \<Rightarrow> nat option" where
  "slice_strrchr s 0 needle = None"
| "slice_strrchr s (Suc i) needle = (if s ! i = needle then Some i else slice_strrchr s i needle)"

definition find_first_nonspace_chr :: "char list \<Rightarrow> nat \<Rightarrow> char" where
  "find_first_nonspace_chr str max_len =
     str ! length (takeWhile (\<lambda>c. c = CHR '' '') (take max_len str))"

text \<open>The \<^verbatim>\<open>f_findfirst\<close>/\<^verbatim>\<open>f_findnext\<close> loop of \<^verbatim>\<open>try_tab_expand_argument\<close>.\<close>

fun argument_loop ::
  "env \<Rightarrow> bool \<Rightarrow> nat \<Rightarrow> (string \<times> bool) list \<Rightarrow> tab_expansion_context \<Rightarrow> char list
    \<Rightarrow> tab_expansion_context \<times> char list" where
  "argument_loop env showall term_len [] ctx out = (ctx, out)"
| "argument_loop env showall term_len ((fname, is_dir) # entries) ctx out =
     (let expansion0 = (replicate 128 NUL)[0 := NUL];
          expansion1 = strbuf_append expansion0 128 (drop (term_len - 1) fname) 126;
          expansion2 = (if is_dir then strbuf_append expansion1 128 ''/'' 1 else expansion1)
      in (case notify_tab_expansion env showall ctx
                 (if is_dir then ExpandDirectory else ExpandNormal) fname (int (strlen fname))
                 expansion2 (int (strlen expansion2)) out of
            (ctx', out') \<Rightarrow> argument_loop env showall term_len entries ctx' out'))"

definition try_tab_expand_argument ::
  "env \<Rightarrow> bool \<Rightarrow> tab_expansion_context \<Rightarrow> char list \<Rightarrow> tab_expansion_context \<times> char list" where
  "try_tab_expand_argument env showall ctx out =
     (let word_start = (case slice_strrchr (cmdline ctx) (cmdline_insertpos ctx) (CHR '' '') of
                          None \<Rightarrow> 0 | Some i \<Rightarrow> i + 1);
          word = drop word_start (cmdline ctx);
          word_len = cmdline_insertpos ctx - word_start
      in if slice_strrchr word word_len (CHR ''*'') \<noteq> None
            \<or> slice_strrchr word word_len (CHR ''?'') \<noteq> None
         then (ctx, out)
         else
           (let search_prefix0 = (replicate 256 NUL)[0 := NUL];
                search_prefix1 = strbuf_append search_prefix0 256 word word_len;
                search_prefix = cstr (strbuf_append search_prefix1 256 ''*'' 1);
                last_slash = slice_strrchr search_prefix (length search_prefix) (CHR ''/'');
                (path, term) =
                   (if last_slash \<noteq> None \<and> last_slash \<noteq> Some 0
                    then (take (the last_slash) search_prefix, drop (the last_slash + 1) search_prefix)
                    else if take 1 search_prefix = ''/'' then (''/'', drop 1 search_prefix)
                    else ([], search_prefix));
                (ctx1, out1) = (if term = ''.*''
                                then notify_tab_expansion env showall ctx ExpandDirectory ''..'' 2 ''./'' 2 out
                                else (ctx, out));
                (ctx2, out2) = (if term = ''..*''
                                then notify_tab_expansion env showall ctx1 ExpandDirectory ''..'' 2 ''/'' 1 out1
                                else (ctx1, out1))
            in argument_loop env showall (length term) (f_find env path term) ctx2 out2))"

text \<open>
  \<^verbatim>\<open>do_tab_complete\<close>, in its two halves: the enumeration of the candidates, and what
  is done with the outcome.
\<close>

definition tab_collect ::
  "env \<Rightarrow> bool \<Rightarrow> char list \<Rightarrow> nat \<Rightarrow> nat \<Rightarrow> char list \<Rightarrow> tab_expansion_context \<times> char list" where
  "tab_collect env showall buffer buffer_len insertPos out =
     (let tab_ctx = \<lparr>num_matches = 0, cmdline = buffer, cmdline_insertpos = insertPos,
                      expansion = [], candidates = []\<rparr>;
          first_char = find_first_nonspace_chr buffer buffer_len
      in if first_char = CHR ''.'' \<or> first_char = CHR ''/''
            \<or> slice_strrchr buffer insertPos (CHR '' '') \<noteq> None
         then try_tab_expand_argument env showall tab_ctx out
         else (case try_tab_expand_internal_cmd env showall (mosCommands env) tab_ctx out of
                 (ctx1, out1) \<Rightarrow> try_tab_expand_bin_name env showall ctx1 out1))"

definition expansion_array :: "env \<Rightarrow> string \<Rightarrow> char list" where
  "expansion_array env acc = acc @ replicate (expansion_size env - length acc) NUL"

definition tab_apply ::
  "env \<Rightarrow> bool \<Rightarrow> tab_expansion_context \<Rightarrow> char list \<Rightarrow> nat \<Rightarrow> nat \<Rightarrow> char list
    \<Rightarrow> char list \<times> nat \<times> bool \<times> char list" where
  "tab_apply env showall tab_ctx buffer buffer_len insertPos out =
     (let con = active_console env;
          num_chars_added = strlen (expansion tab_ctx);
          out1 = (if num_matches tab_ctx > 0 \<and> showall then
                    (let o1 = print_expansion_candidates env (candidates tab_ctx) out;
                         o2 = mos_print_prompt env (putch (CHR 0x0D) o1);
                         o3 = printf_s buffer o2;
                         insert_pos_adjust = nat ((int (strlen buffer) - int insertPos) mod 256)
                     in (doLeftCursor con ^^ insert_pos_adjust) o3)
                  else out);
          showall1 = (if num_matches tab_ctx > 1 \<and> num_chars_added = 0 then True else showall)
      in if num_chars_added > 0 \<or> (num_chars_added = 0 \<and> num_matches tab_ctx = 1) then
           (let last_byte = (if num_chars_added = 0 then byte_before_expansion env
                             else expansion tab_ctx ! (num_chars_added - 1));
                expansion1 = (if num_matches tab_ctx = 1 \<and> last_byte \<noteq> CHR ''/''
                              then cstr (strbuf_append (expansion_array env (expansion tab_ctx))
                                           (expansion_size env) '' '' 1)
                              else expansion tab_ctx);
                append_at_eol = (insertPos = strlen buffer);
                (buffer1, chars_inserted) = strbuf_insert buffer buffer_len expansion1 insertPos;
                out2 = out1 @ printf_prec chars_inserted expansion1;
                insertPos1 = nat (int insertPos + chars_inserted);
                out3 = (if \<not> append_at_eol then
                          (let len_tail = strlen (drop insertPos1 buffer1)
                           in (doLeftCursor con ^^ len_tail)
                                (out2 @ printf_prec (int len_tail) (drop insertPos1 buffer1)))
                        else out2)
            in (buffer1, insertPos1, showall1, out3))
         else (buffer, insertPos, showall1, out1))"

definition do_tab_complete ::
  "env \<Rightarrow> bool \<Rightarrow> char list \<Rightarrow> nat \<Rightarrow> nat \<Rightarrow> char list \<Rightarrow> char list \<times> nat \<times> bool \<times> char list" where
  "do_tab_complete env showall buffer buffer_len insertPos out =
     (case tab_collect env showall buffer buffer_len insertPos out of
        (tab_ctx, out1) \<Rightarrow> tab_apply env showall tab_ctx buffer buffer_len insertPos out1)"

section \<open>The line editor\<close>

text \<open>
  A key-down event as \<^verbatim>\<open>kbuf_wait_keydown\<close> delivers it: the ASCII code and the
  virtual key. The virtual keys the editor tells apart are constructors; \<open>VK_OTHER\<close>
  stands for every other one.
\<close>

datatype vkey =
    VK_HOME | VK_END | VK_PAGEUP | VK_PAGEDOWN | VK_LEFT | VK_KP_LEFT
  | VK_F1 | VK_F2 | VK_F3 | VK_F4 | VK_F5 | VK_F6
  | VK_F7 | VK_F8 | VK_F9 | VK_F10 | VK_F11 | VK_F12
  | VK_OTHER

record keyboard_event_t =
  ascii :: char
  vkey :: vkey

text \<open>\<^verbatim>\<open>ev.vkey - VK_F1\<close> for the twelve function keys.\<close>

fun fkey_of :: "vkey \<Rightarrow> nat option" where
  "fkey_of VK_F1 = Some 0" | "fkey_of VK_F2 = Some 1" | "fkey_of VK_F3 = Some 2"
| "fkey_of VK_F4 = Some 3" | "fkey_of VK_F5 = Some 4" | "fkey_of VK_F6 = Some 5"
| "fkey_of VK_F7 = Some 6" | "fkey_of VK_F8 = Some 7" | "fkey_of VK_F9 = Some 8"
| "fkey_of VK_F10 = Some 9" | "fkey_of VK_F11 = Some 10" | "fkey_of VK_F12 = Some 11"
| "fkey_of _ = None"

text \<open>
  The locals of \<^verbatim>\<open>mos_EDITLINE\<close> and the globals it works on: the buffer, \<^verbatim>\<open>insertPos\<close>,
  \<^verbatim>\<open>len\<close>, \<^verbatim>\<open>keyr\<close>, the history, \<^verbatim>\<open>tab_complete_state_showall\<close> and the bytes sent
  to the console.
\<close>

record edit_state =
  st_buffer :: "char list"
  st_insertPos :: nat
  st_len :: nat
  st_keyr :: char
  st_hist :: history
  st_showall :: bool
  st_out :: "char list"

text \<open>
  How a call of \<^verbatim>\<open>mos_EDITLINE\<close> ends: it returns a key code, or it stays blocked in
  \<^verbatim>\<open>kbuf_wait_keydown\<close> (no event left; the state it waits in is kept), or it never
  leaves the cursor-down loop (a console zero columns wide), or it reads through a NULL
  history entry.
\<close>

datatype outcome = Returns char edit_state | AwaitsKey edit_state | CursorLoopForever | NullDereference

text \<open>The ASCII keys: the \<^verbatim>\<open>default\<close> branch of the switch. The second result is \<^verbatim>\<open>historyAction\<close>.\<close>

definition ascii_key :: "env \<Rightarrow> nat \<Rightarrow> bool \<Rightarrow> char \<Rightarrow> edit_state \<Rightarrow> edit_state \<times> nat" where
  "ascii_key env bufferLength enableTab keya st =
     (let con = active_console env in
      if keya = NUL then (st, 0)
      else if (of_char keya :: nat) \<ge> 0x20 \<and> keya \<noteq> CHR 0x7F then
        (case insertCharacter con (st_buffer st) bufferLength keya (st_insertPos st) (st_out st) of
           (ok, b, out') \<Rightarrow>
             (st\<lparr>st_buffer := b, st_out := out',
                 st_insertPos := (if ok then st_insertPos st + 1 else st_insertPos st)\<rparr>, 0))
      else if keya = CHR 0x01 then
        (case gotoEditLineStart con (st_insertPos st) (st_out st) of
           (p, out') \<Rightarrow> (st\<lparr>st_insertPos := p, st_out := out'\<rparr>, 0))
      else if keya = CHR 0x02 then
        (if st_insertPos st > 0
         then (st\<lparr>st_out := doLeftCursor con (st_out st), st_insertPos := st_insertPos st - 1\<rparr>, 0)
         else (st, 0))
      else if keya = CHR 0x05 then
        (case gotoEditLineEnd con (st_insertPos st) (st_len st) (st_out st) of
           (p, out') \<Rightarrow> (st\<lparr>st_insertPos := p, st_out := out'\<rparr>, 0))
      else if keya = CHR 0x09 then
        (if enableTab then
           (case do_tab_complete env (st_showall st) (st_buffer st) bufferLength (st_insertPos st)
                   (st_out st) of
              (b, p, showall, out') \<Rightarrow>
                (st\<lparr>st_buffer := b, st_insertPos := p, st_showall := showall, st_out := out',
                    st_len := strlen b\<rparr>, 0))
         else (st, 0))
      else if keya = CHR 0x0A then (st, 3)
      else if keya = CHR 0x0B then (st, 2)
      else if keya = CHR 0x0D then (st\<lparr>st_keyr := keya\<rparr>, 1)
      else if keya = CHR 0x0E then (st, 3)
      else if keya = CHR 0x10 then (st, 2)
      else if keya = CHR 0x06 \<or> keya = CHR 0x15 then
        (if st_insertPos st < st_len st
         then (st\<lparr>st_out := doRightCursor con (st_out st), st_insertPos := st_insertPos st + 1\<rparr>, 0)
         else (st, 0))
      else if keya = CHR 0x17 then
        (case deleteWord con (st_buffer st) (st_insertPos st) (st_len st) (st_out st) of
           (num_deleted, b, out') \<Rightarrow>
             (st\<lparr>st_buffer := b, st_out := out', st_insertPos := st_insertPos st - num_deleted\<rparr>, 0))
      else if keya = CHR 0x1B then (st\<lparr>st_keyr := keya\<rparr>, 0)
      else if keya = CHR 0x08 \<or> keya = CHR 0x7F then
        (case deleteCharacter con (st_buffer st) (st_insertPos st) (st_len st) (st_out st) of
           (ok, b, out') \<Rightarrow>
             (st\<lparr>st_buffer := b, st_out := out',
                 st_insertPos := (if ok then st_insertPos st - 1 else st_insertPos st)\<rparr>, 0))
      else (st, 0))"

text \<open>The switch on the virtual key; a function key that expands falls through as Enter.\<close>

definition key_action ::
  "env \<Rightarrow> nat \<Rightarrow> bool \<Rightarrow> bool \<Rightarrow> keyboard_event_t \<Rightarrow> edit_state \<Rightarrow> edit_state \<times> nat" where
  "key_action env bufferLength enableTab enableHotkeys ev st =
     (let con = active_console env in
      case vkey ev of
        VK_HOME \<Rightarrow>
          (case gotoEditLineStart con (st_insertPos st) (st_out st) of
             (p, out') \<Rightarrow> (st\<lparr>st_insertPos := p, st_out := out'\<rparr>, 0))
      | VK_END \<Rightarrow>
          (case gotoEditLineEnd con (st_insertPos st) (st_len st) (st_out st) of
             (p, out') \<Rightarrow> (st\<lparr>st_insertPos := p, st_out := out'\<rparr>, 0))
      | VK_PAGEUP \<Rightarrow> (st, 2)
      | VK_PAGEDOWN \<Rightarrow> (st, 3)
      | VK_LEFT \<Rightarrow>
          (if st_insertPos st > 0
           then (st\<lparr>st_out := doLeftCursor con (st_out st), st_insertPos := st_insertPos st - 1\<rparr>, 0)
           else (st, 0))
      | VK_KP_LEFT \<Rightarrow>
          (if st_insertPos st > 0
           then (st\<lparr>st_out := doLeftCursor con (st_out st), st_insertPos := st_insertPos st - 1\<rparr>, 0)
           else (st, 0))
      | VK_OTHER \<Rightarrow> ascii_key env bufferLength enableTab (ascii ev) st
      | _ \<Rightarrow>
          (if enableHotkeys then
             (case handleHotkey con (umm_malloc env) (hotkey_strings env) (the (fkey_of (vkey ev)))
                     (st_buffer st) bufferLength (st_insertPos st) (st_len st) (st_out st) of
                (handled, b, out') \<Rightarrow>
                  if handled
                  then ascii_key env bufferLength enableTab (CHR 0x0D)
                         (st\<lparr>st_buffer := b, st_out := out', st_len := strlen b, st_insertPos := strlen b\<rparr>)
                  else (st\<lparr>st_buffer := b, st_out := out'\<rparr>, 0))
           else (st, 0)))"

text \<open>The history part of one round of the loop (entered when history is enabled).\<close>

definition history_action :: "env \<Rightarrow> nat \<Rightarrow> nat \<Rightarrow> edit_state \<Rightarrow> edit_state option" where
  "history_action env bufferLength historyAction st =
     (let con = active_console env in
      if historyAction = 1 then
        map_option (\<lambda>h. st\<lparr>st_hist := h\<rparr>)
          (editHistoryPush (umm_malloc env) (cmd_historyDepth env) (st_hist st) (st_buffer st) bufferLength)
      else if historyAction = 2 \<or> historyAction = 3 then
        (case (if historyAction = 2
               then editHistoryUp con (st_hist st) (st_buffer st) bufferLength
                      (st_insertPos st) (st_len st) (st_out st)
               else editHistoryDown con (st_hist st) (st_buffer st) bufferLength
                      (st_insertPos st) (st_len st) (st_out st)) of
           None \<Rightarrow> None
         | Some (lineChanged, h, b, out') \<Rightarrow>
             Some (if lineChanged
                   then st\<lparr>st_hist := h, st_buffer := b, st_out := printf_s b out',
                           st_insertPos := strlen b, st_len := strlen b\<rparr>
                   else st\<lparr>st_hist := h, st_buffer := b, st_out := out'\<rparr>))
      else Some st)"

text \<open>
  One round of \<^verbatim>\<open>while (keyr == 0)\<close>, for the event that \<^verbatim>\<open>kbuf_wait_keydown\<close>
  delivered. The flags: bit 1 enables tab completion, bit 2 disables the hotkeys, bit 3
  disables the history.
\<close>

definition edit_step :: "env \<Rightarrow> nat \<Rightarrow> nat \<Rightarrow> keyboard_event_t \<Rightarrow> edit_state \<Rightarrow> edit_state option" where
  "edit_step env bufferLength flags ev st =
     (let enableTab = bit flags 1;
          enableHotkeys = \<not> bit flags 2;
          enableHistory = \<not> bit flags 3;
          st0 = st\<lparr>st_len := strlen (st_buffer st),
                   st_showall := (if ascii ev \<noteq> CHR 0x09 then False else st_showall st)\<rparr>
      in (case key_action env bufferLength enableTab enableHotkeys ev st0 of
            (st1, historyAction) \<Rightarrow>
              if enableHistory then history_action env bufferLength historyAction st1
              else Some st1))"

text \<open>\<^verbatim>\<open>while (len >= scrcols) { putch(0x0A); len -= scrcols; }\<close> on a console with columns.\<close>

function cursor_down_loop :: "nat \<Rightarrow> int \<Rightarrow> char list \<Rightarrow> int \<times> char list" where
  "cursor_down_loop cols l out =
     (if 0 < cols \<and> int cols \<le> l
      then cursor_down_loop cols (l - int cols) (putch (CHR 0x0A) out)
      else (l, out))"
  by pat_completeness auto
termination
  by (relation "measure (\<lambda>(cols, l, out). nat l)") auto

declare cursor_down_loop.simps [simp del]

text \<open>
  The end of \<^verbatim>\<open>mos_EDITLINE\<close>: the cursor goes to the end of the line and \<^verbatim>\<open>keyr\<close>
  is returned. With zero columns and \<open>len \<ge> 0\<close> the first loop never ends.
\<close>

definition finish :: "env \<Rightarrow> edit_state \<Rightarrow> outcome" where
  "finish env st =
     (let cols = scrcols (active_console env);
          l = int (st_len st) - int (st_insertPos st)
      in if cols = 0 \<and> 0 \<le> l then CursorLoopForever
         else (case cursor_down_loop cols l (st_out st) of
                 (l1, out1) \<Rightarrow>
                   Returns (st_keyr st) (st\<lparr>st_out := out1 @ replicate (nat l1) (CHR 0x09)\<rparr>)))"

fun edit_loop :: "env \<Rightarrow> nat \<Rightarrow> nat \<Rightarrow> keyboard_event_t list \<Rightarrow> edit_state \<Rightarrow> outcome" where
  "edit_loop env bufferLength flags [] st = AwaitsKey st"
| "edit_loop env bufferLength flags (ev # evs) st =
     (case edit_step env bufferLength flags ev st of
        None \<Rightarrow> NullDereference
      | Some st' \<Rightarrow>
          if st_keyr st' = NUL then edit_loop env bufferLength flags evs st'
          else finish env st')"

text \<open>
  \<^verbatim>\<open>mos_EDITLINE(buffer, bufferLength, flags)\<close>, run on the history \<open>h\<close> and the bytes
  \<open>out\<close> already sent to the console, with the key-down events that arrive. Bit 0 of the
  flags clears the buffer on entry.
\<close>

definition mos_EDITLINE ::
  "env \<Rightarrow> char list \<Rightarrow> nat \<Rightarrow> nat \<Rightarrow> history \<Rightarrow> char list \<Rightarrow> keyboard_event_t list \<Rightarrow> outcome" where
  "mos_EDITLINE env buffer bufferLength flags h out evs =
     (let clear = bit flags 0;
          h0 = h\<lparr>history_no := history_size h\<rparr>;
          st = (if clear
                then \<lparr>st_buffer = buffer[0 := NUL], st_insertPos = 0, st_len = 0, st_keyr = NUL,
                      st_hist = h0, st_showall = False, st_out = out\<rparr>
                else \<lparr>st_buffer = buffer, st_insertPos = strlen buffer, st_len = 0, st_keyr = NUL,
                      st_hist = h0, st_showall = False, st_out = printf_s buffer out\<rparr>)
      in edit_loop env bufferLength flags evs st)"

section \<open>The setting of the examples\<close>

text \<open>
  A console 80 columns wide that reports column 0, an allocator and a candidate vector
  that never fail, no hotkey bound, the command table \<open>CD\<close>, \<open>COPY\<close>, \<open>CLS\<close>
  of the specification's example, a file system with no match, an accumulator of 128
  bytes after a zero byte, a history 16 deep, and a listing and a prompt that print
  nothing.
\<close>

definition example_env :: env where
  "example_env =
     \<lparr>active_console = \<lparr>get_cursor_pos = (\<lambda>sent. 0), scrcols = 80\<rparr>,
      umm_malloc = (\<lambda>n. True),
      hotkey_strings = (\<lambda>k. None),
      mosCommands = [''CD'', ''COPY'', ''CLS''],
      f_find = (\<lambda>dir pattern. []),
      cwd = ''/'',
      vec_push_ok = (\<lambda>n. True),
      expansion_size = 128,
      byte_before_expansion = NUL,
      cmd_historyDepth = 16,
      print_expansion_candidates = (\<lambda>cs sent. sent),
      mos_print_prompt = (\<lambda>sent. sent)\<rparr>"

text \<open>
  The same setting with two programs in the current directory, \<open>test.backup.bin\<close> and
  \<open>test.bin\<close>, which the pattern \<open>te*.bin\<close> finds in this order; \<^verbatim>\<open>/mos/\<close> and
  \<^verbatim>\<open>/bin/\<close> hold no match.
\<close>

definition bin_env :: env where
  "bin_env = example_env\<lparr>f_find := (\<lambda>dir pattern.
       if dir = [] \<and> pattern = ''te*.bin''
       then [(''test.backup.bin'', False), (''test.bin'', False)] else [])\<rparr>"

section \<open>Facts about C strings\<close>

lemma cstr_append_NUL: "NUL \<notin> set s \<Longrightarrow> cstr (s @ NUL # rest) = s"
  by (induction s) (auto simp: cstr_def)

lemma strlen_append_NUL: "NUL \<notin> set s \<Longrightarrow> strlen (s @ NUL # rest) = length s"
  by (simp add: strlen_def cstr_append_NUL)

lemma NUL_notin_cstr: "NUL \<notin> set (cstr s)"
  by (auto simp: cstr_def dest: set_takeWhileD)

lemma strlen_le: "strlen s \<le> length s"
  by (simp add: strlen_def cstr_def length_takeWhile_le)

lemma cstr_split:
  assumes "strlen s < length s"
  shows "\<exists>rest. s = cstr s @ NUL # rest"
proof -
  let ?d = "dropWhile (\<lambda>c. c \<noteq> NUL) s"
  have "s = cstr s @ ?d" by (simp add: cstr_def)
  moreover have "?d \<noteq> []"
    using assms calculation by (metis append_Nil2 less_irrefl strlen_def)
  moreover then have "hd ?d = NUL"
    using hd_dropWhile [of "\<lambda>c. c \<noteq> NUL" s] by simp
  ultimately show ?thesis
    by (metis list.collapse)
qed

lemma strnlen_full: "length s \<le> n \<Longrightarrow> strnlen s n = strlen s"
  by (simp add: strnlen_def)

lemma strlen_nth_NUL: "strlen s < length s \<Longrightarrow> s ! strlen s = NUL"
  using cstr_split [of s] by (metis nth_append_length strlen_def)


lemma length_shift_tail_right [simp]: "length (shift_tail_right b p n) = length b"
  by (induction n arbitrary: b) auto

lemma shift_tail_right_nth:
  "p + n < length b \<Longrightarrow> j < length b \<Longrightarrow>
   shift_tail_right b p n ! j = (if p < j \<and> j \<le> p + n then b ! (j - 1) else b ! j)"
  by (induction n arbitrary: b) (auto simp: nth_list_update)

lemma strlen_le_NUL_index: "j < length b \<Longrightarrow> b ! j = NUL \<Longrightarrow> strlen b \<le> j"
proof (rule ccontr)
  assume j: "j < length b" and z: "b ! j = NUL" and "\<not> strlen b \<le> j"
  then have lt: "j < length (takeWhile (\<lambda>c. c \<noteq> NUL) b)"
    by (simp add: strlen_def cstr_def)
  then have "takeWhile (\<lambda>c. c \<noteq> NUL) b ! j \<in> set (takeWhile (\<lambda>c. c \<noteq> NUL) b)"
    by (rule nth_mem)
  then have "takeWhile (\<lambda>c. c \<noteq> NUL) b ! j \<noteq> NUL"
    by (auto dest: set_takeWhileD)
  with lt z show False by (simp add: takeWhile_nth)
qed

lemma strlen_nth_nonNUL: "j < strlen b \<Longrightarrow> b ! j \<noteq> NUL"
proof -
  assume lt: "j < strlen b"
  then have lt: "j < length (takeWhile (\<lambda>c. c \<noteq> NUL) b)"
    by (simp add: strlen_def cstr_def)
  then have "takeWhile (\<lambda>c. c \<noteq> NUL) b ! j \<in> set (takeWhile (\<lambda>c. c \<noteq> NUL) b)"
    by (rule nth_mem)
  then have "takeWhile (\<lambda>c. c \<noteq> NUL) b ! j \<noteq> NUL"
    by (auto dest: set_takeWhileD)
  with lt show ?thesis by (simp add: takeWhile_nth)
qed

lemma insertCharacter_refused:
  "\<not> strnlen b N + 1 < N \<Longrightarrow> insertCharacter con b N c p out = (False, b, out)"
  by (auto simp: insertCharacter_def Let_def)

lemma insertCharacter_accepted:
  "strnlen b N + 1 < N \<Longrightarrow>
   insertCharacter con b N c p out =
     (True, (shift_tail_right b p (strnlen b N + 1 - p))[p := c],
      (doLeftCursor con ^^ (strnlen b N - p))
        (putch c out @ map (\<lambda>i. (shift_tail_right b p (strnlen b N + 1 - p))[p := c] ! i) [p + 1 ..< strnlen b N + 1]))"
  by (auto simp: insertCharacter_def Let_def)

lemma inserted_bytes:
  assumes "length b = N" "len + 1 < N" "p \<le> len"
  shows "(shift_tail_right b p (len + 1 - p))[p := c]
         = take p b @ c # drop p (take (len + 1) b) @ drop (len + 2) b"
proof (rule nth_equalityI)
  show "length ((shift_tail_right b p (len + 1 - p))[p := c])
        = length (take p b @ c # drop p (take (len + 1) b) @ drop (len + 2) b)"
    using assms by auto
next
  fix j assume "j < length ((shift_tail_right b p (len + 1 - p))[p := c])"
  then have j: "j < length b" by simp
  have in_range: "p + (len + 1 - p) < length b" using assms by simp
  have far: "\<not> j \<le> Suc len \<Longrightarrow> Suc (Suc (j - 2)) = j" by arith
  show "(shift_tail_right b p (len + 1 - p))[p := c] ! j
        = (take p b @ c # drop p (take (len + 1) b) @ drop (len + 2) b) ! j"
    using assms j shift_tail_right_nth [OF in_range j]
    by (auto simp: nth_list_update nth_append nth_Cons' min_def far)
qed

lemma insertCharacter_keeps_terminator:
  assumes "length b = N" "strnlen b N < N" "p < N"
  shows "length (fst (snd (insertCharacter con b N c p out))) = N
       \<and> strnlen (fst (snd (insertCharacter con b N c p out))) N < N"
proof (cases "strnlen b N + 1 < N")
  case False
  then show ?thesis using assms by (simp add: insertCharacter_refused)
next
  case True
  let ?len = "strnlen b N"
  let ?b' = "(shift_tail_right b p (?len + 1 - p))[p := c]"
  have len: "?len = strlen b" using assms by (simp add: strnlen_full)
  have z: "b ! ?len = NUL" using assms len by (simp add: strlen_nth_NUL)
  have "\<exists>j < N. ?b' ! j = NUL"
  proof (cases "p \<le> ?len")
    case True
    then have "p + (?len + 1 - p) < length b" using \<open>?len + 1 < N\<close> assms by simp
    from shift_tail_right_nth [OF this, of "?len + 1"] True z \<open>?len + 1 < N\<close> assms
    have "?b' ! (?len + 1) = NUL" by (simp add: nth_list_update)
    with \<open>?len + 1 < N\<close> show ?thesis by blast
  next
    case False
    then have "?b' ! ?len = NUL" using z assms by (simp add: nth_list_update)
    with assms show ?thesis by blast
  qed
  then obtain j where "j < N" "?b' ! j = NUL" by blast
  then have "strlen ?b' \<le> j" using assms by (intro strlen_le_NUL_index) auto
  then have "strnlen ?b' N < N" using \<open>j < N\<close> assms by (simp add: strnlen_full)
  then show ?thesis using True assms by (simp add: insertCharacter_accepted)
qed

lemma insert_sequence_keeps_terminator:
  assumes "length b = N" "strnlen b N < N" "\<forall>(c, p) \<in> set ops. p < N"
  shows "length (fst (insert_sequence con N ops b out)) = N
       \<and> strnlen (fst (insert_sequence con N ops b out)) N < N"
  using assms
proof (induction ops arbitrary: b out)
  case Nil
  then show ?case by simp
next
  case (Cons op ops)
  obtain c p where op: "op = (c, p)" by (cases op)
  obtain ok b' out' where ins: "insertCharacter con b N c p out = (ok, b', out')"
    by (cases "insertCharacter con b N c p out")
  have "p < N" using Cons.prems op by simp
  from insertCharacter_keeps_terminator [OF Cons.prems(1,2) this, of con c out] ins
  have "length b' = N" "strnlen b' N < N" by simp_all
  moreover have "\<forall>(c, p) \<in> set ops. p < N" using Cons.prems by simp
  ultimately show ?case using Cons.IH [of b' out'] op ins by simp
qed

section \<open>C1: insertion never overruns the buffer\<close>

text \<open>
  C1. A buffer of capacity \<open>N\<close> that holds a null-terminated string: \<^verbatim>\<open>insertCharacter\<close>
  refuses (returns false, buffer and output unchanged) exactly when the string is
  \<open>N - 1\<close> long; otherwise, at a position within the string, the bytes from the position
  to the terminator move one place right and the character is written at the position.
  After any sequence of insertions at positions within the array the string is at most
  \<open>N - 1\<close> long and the byte at index length is 0.
\<close>

theorem insertCharacter_capacity:
  assumes "length buffer = N" and "strnlen buffer N < N"
  shows "(case insertCharacter con buffer N c p out of
            (ok, b', out') \<Rightarrow>
              (\<not> ok \<longleftrightarrow> strnlen buffer N = N - 1)
            \<and> (\<not> ok \<longrightarrow> b' = buffer \<and> out' = out)
            \<and> (ok \<and> p \<le> strnlen buffer N \<longrightarrow>
                 b' = take p buffer @ c # drop p (take (strnlen buffer N + 1) buffer)
                        @ drop (strnlen buffer N + 2) buffer))
       \<and> ((\<forall>(c, p) \<in> set ops. p < N) \<longrightarrow>
            (case insert_sequence con N ops buffer out of
               (b', out') \<Rightarrow> length b' = N \<and> strnlen b' N \<le> N - 1 \<and> b' ! strnlen b' N = NUL))"
proof (intro conjI impI)
  show "case insertCharacter con buffer N c p out of
          (ok, b', out') \<Rightarrow>
            (\<not> ok \<longleftrightarrow> strnlen buffer N = N - 1)
          \<and> (\<not> ok \<longrightarrow> b' = buffer \<and> out' = out)
          \<and> (ok \<and> p \<le> strnlen buffer N \<longrightarrow>
               b' = take p buffer @ c # drop p (take (strnlen buffer N + 1) buffer)
                      @ drop (strnlen buffer N + 2) buffer)"
  proof (cases "strnlen buffer N + 1 < N")
    case False
    then show ?thesis using assms by (auto simp: insertCharacter_refused)
  next
    case True
    have closed: "p \<le> strnlen buffer N \<Longrightarrow>
        (shift_tail_right buffer p (strnlen buffer N + 1 - p))[p := c]
        = take p buffer @ c # drop p (take (strnlen buffer N + 1) buffer)
            @ drop (strnlen buffer N + 2) buffer"
      by (rule inserted_bytes [OF assms(1) True])
    have "strnlen buffer N \<noteq> N - 1" using True by arith
    with closed show ?thesis
      unfolding insertCharacter_accepted [OF True] by simp
  qed
next
  assume ops: "\<forall>(c, p) \<in> set ops. p < N"
  obtain b' out' where seq: "insert_sequence con N ops buffer out = (b', out')"
    by (cases "insert_sequence con N ops buffer out")
  from insert_sequence_keeps_terminator [OF assms ops, of con out] seq
  have l: "length b' = N" and t: "strnlen b' N < N" by simp_all
  then have "b' ! strnlen b' N = NUL" by (simp add: strnlen_full strlen_nth_NUL)
  with l t seq show "case insert_sequence con N ops buffer out of
      (b', out') \<Rightarrow> length b' = N \<and> strnlen b' N \<le> N - 1 \<and> b' ! strnlen b' N = NUL"
    by simp
qed


theorem insertCharacter_capacity_witness:
  "fst (insertCharacter \<lparr>get_cursor_pos = (\<lambda>sent. 0), scrcols = 80\<rparr>
          (''ab'' @ [NUL, CHR ''x'']) 4 (CHR ''X'') 1 [])
   \<and> fst (snd (insertCharacter \<lparr>get_cursor_pos = (\<lambda>sent. 0), scrcols = 80\<rparr>
          (''ab'' @ [NUL, CHR ''x'']) 4 (CHR ''X'') 1 [])) = ''aXb'' @ [NUL]
   \<and> strnlen (fst (insert_sequence \<lparr>get_cursor_pos = (\<lambda>sent. 0), scrcols = 80\<rparr> 4
          [(CHR ''c'', 0), (CHR ''d'', 2), (CHR ''e'', 1)] (''ab'' @ [NUL, CHR ''x'']) [])) 4 \<le> 3"
proof -
  let ?b = "''ab'' @ [NUL, CHR ''x'']"
  let ?ops = "[(CHR ''c'', 0 :: nat), (CHR ''d'', 2), (CHR ''e'', 1)]"
  have h1: "length ?b = 4" by simp
  have h2: "strnlen ?b 4 < 4" by (simp add: strnlen_def strlen_def cstr_def)
  have h3: "\<forall>(c, p) \<in> set ?ops. p < 4" by simp
  from insertCharacter_capacity [OF h1 h2,
      where con = "\<lparr>get_cursor_pos = (\<lambda>sent. 0), scrcols = 80\<rparr>"
        and c = "CHR ''X''" and p = 1 and out = "[]" and ops = ?ops] h3
  show ?thesis
    by (simp add: strnlen_def strlen_def cstr_def split: prod.splits)
qed

lemma shift_tail_left_length [simp]: "length (fst (shift_tail_left b out i n)) = length b"
  by (induction n arbitrary: b out i) (auto simp: Let_def)

lemma shift_tail_left_nth:
  "i + n < length b \<Longrightarrow> j < length b \<Longrightarrow>
   fst (shift_tail_left b out i n) ! j = (if i \<le> j \<and> j < i + n then b ! (j + 1) else b ! j)"
  by (induction n arbitrary: b out i) (auto simp: Let_def nth_list_update)

lemma strlen_ge: "k \<le> length b \<Longrightarrow> (\<And>j. j < k \<Longrightarrow> b ! j \<noteq> NUL) \<Longrightarrow> k \<le> strlen b"
  unfolding strlen_def cstr_def by (rule length_takeWhile_less_P_nth) auto

lemma cstr_update_after: "strlen b < j \<Longrightarrow> cstr (b[j := x]) = cstr b"
proof (cases "strlen b < length b")
  case False
  assume "strlen b < j"
  with False show ?thesis by (simp add: list_update_beyond)
next
  case True
  assume j: "strlen b < j"
  from cstr_split [OF True] obtain rest where b: "b = cstr b @ NUL # rest" by blast
  have "b[j := x] = cstr b @ NUL # rest[j - strlen b - 1 := x]"
    using j by (subst b) (cases "j - length (cstr b)", auto simp: list_update_append strlen_def)
  then show ?thesis by (simp add: cstr_append_NUL NUL_notin_cstr)
qed

lemma inserted_nth:
  assumes "length b = N" "len + 1 < N" "p \<le> len" "j < N"
  shows "(shift_tail_right b p (len + 1 - p))[p := c] ! j
         = (if j = p then c else if p < j \<and> j \<le> len + 1 then b ! (j - 1) else b ! j)"
proof -
  have in_range: "p + (len + 1 - p) < length b" using assms by simp
  have j: "j < length b" using assms by simp
  show ?thesis using assms shift_tail_right_nth [OF in_range j]
    by (auto simp: nth_list_update)
qed

section \<open>C10: inserting, then deleting, restores the line\<close>

text \<open>
  C10. A buffer of capacity \<open>N\<close> that holds a null-terminated string, a character
  \<open>c\<close> (a NUL is the terminator, not a character of the line) and a position within the
  string: after a successful \<^verbatim>\<open>insertCharacter\<close> of \<open>c\<close> at \<open>p\<close>, \<^verbatim>\<open>deleteCharacter\<close> at
  \<open>p + 1\<close>, given the length of the line as the editor does, deletes and leaves the
  string that was there before. Of the array only the byte after the old terminator's
  successor place changes: it is 0 now.
\<close>

theorem insert_then_delete_roundtrip:
  assumes "length buffer = N" and "strnlen buffer N < N" and "p \<le> strnlen buffer N"
      and "c \<noteq> NUL"
      and "insertCharacter con buffer N c p out = (True, b1, out1)"
  shows "case deleteCharacter con b1 (p + 1) (strlen b1) out1 of
           (ok, b2, out2) \<Rightarrow>
             ok \<and> cstr b2 = cstr buffer \<and> b2 = buffer[strnlen buffer N + 1 := NUL]"
proof -
  let ?len = "strnlen buffer N"
  have len: "?len = strlen buffer" using assms by (simp add: strnlen_full)
  have room: "?len + 1 < N"
    using assms(5) by (cases "?len + 1 < N") (simp_all add: insertCharacter_refused)
  have b1: "b1 = (shift_tail_right buffer p (?len + 1 - p))[p := c]"
    using assms(5) by (simp add: insertCharacter_accepted [OF room])
  have l1: "length b1 = N" using b1 assms by simp
  have n1: "\<And>j. j < N \<Longrightarrow>
      b1 ! j = (if j = p then c else if p < j \<and> j \<le> ?len + 1 then buffer ! (j - 1) else buffer ! j)"
    unfolding b1 by (rule inserted_nth [OF assms(1) room assms(3)])
  have z: "buffer ! ?len = NUL" using assms len by (simp add: strlen_nth_NUL)
  have nz: "\<And>j. j < ?len \<Longrightarrow> buffer ! j \<noteq> NUL" using len by (simp add: strlen_nth_nonNUL)
  have "b1 ! (?len + 1) = NUL" using n1 [of "?len + 1"] room assms(3) z by simp
  then have "strlen b1 \<le> ?len + 1" using room l1 by (intro strlen_le_NUL_index) auto
  moreover have "?len + 1 \<le> strlen b1"
  proof (rule strlen_ge)
    show "?len + 1 \<le> length b1" using room l1 by simp
  next
    fix j assume "j < ?len + 1"
    then show "b1 ! j \<noteq> NUL"
      using n1 [of j] room assms(3,4) nz [of j] nz [of "j - 1"] by (auto split: if_splits)
  qed
  ultimately have s1: "strlen b1 = ?len + 1" by simp
  let ?b2 = "fst (shift_tail_left b1 (doLeftCursor con out1) p (?len + 1 - p))"
  have in_range: "p + (?len + 1 - p) < length b1" using room l1 assms(3) by simp
  have b2: "?b2 = buffer[?len + 1 := NUL]"
  proof (rule nth_equalityI)
    show "length ?b2 = length (buffer[?len + 1 := NUL])" using l1 assms by simp
  next
    fix j assume "j < length ?b2"
    then have j: "j < N" using l1 by simp
    then have j1: "j < length b1" using l1 by simp
    show "?b2 ! j = buffer[?len + 1 := NUL] ! j"
      using shift_tail_left_nth [OF in_range j1, of "doLeftCursor con out1"]
        n1 [of j] n1 [of "j + 1"] j room assms(1,3) z
      by (auto simp: nth_list_update split: if_splits)
  qed
  have "cstr (buffer[?len + 1 := NUL]) = cstr buffer"
    using len by (intro cstr_update_after) simp
  moreover obtain b2 out2
    where sh: "shift_tail_left b1 (doLeftCursor con out1) p (?len + 1 - p) = (b2, out2)"
    by (cases "shift_tail_left b1 (doLeftCursor con out1) p (?len + 1 - p)")
  moreover have "b2 = buffer[?len + 1 := NUL]" using b2 sh by simp
  ultimately show ?thesis
    using s1 by (simp add: deleteCharacter_def Let_def)
qed

theorem insert_then_delete_roundtrip_witness:
  "(case insertCharacter \<lparr>get_cursor_pos = (\<lambda>sent. 0), scrcols = 80\<rparr>
           (''ab'' @ [NUL, CHR ''x'']) 4 (CHR ''X'') 1 [] of
      (ok, b1, out1) \<Rightarrow>
        ok \<and> cstr b1 = ''aXb''
        \<and> cstr (fst (snd (deleteCharacter \<lparr>get_cursor_pos = (\<lambda>sent. 0), scrcols = 80\<rparr>
                   b1 2 (strlen b1) out1))) = ''ab'')"
proof -
  let ?con = "\<lparr>get_cursor_pos = (\<lambda>sent. 0), scrcols = 80\<rparr>"
  let ?b = "''ab'' @ [NUL, CHR ''x'']"
  let ?r = "insertCharacter ?con ?b 4 (CHR ''X'') 1 []"
  have h1: "length ?b = 4" by simp
  have h2: "strnlen ?b 4 < 4" by (simp add: strnlen_def strlen_def cstr_def)
  have h3: "1 \<le> strnlen ?b 4" by (simp add: strnlen_def strlen_def cstr_def)
  have h4: "CHR ''X'' \<noteq> NUL" by simp
  have ins: "?r = (True, fst (snd ?r), snd (snd ?r))"
    by (simp add: insertCharacter_def Let_def strnlen_def strlen_def cstr_def)
  have b1: "fst (snd ?r) = ''aXb'' @ [NUL]"
    by (simp add: insertCharacter_def Let_def strnlen_def strlen_def cstr_def)
  let ?d = "deleteCharacter ?con (fst (snd ?r)) 2 (strlen (fst (snd ?r))) (snd (snd ?r))"
  from insert_then_delete_roundtrip [OF h1 h2 h3 h4 ins]
  have "cstr (fst (snd ?d)) = cstr ?b"
    by (cases ?d) (simp add: numeral_2_eq_2)
  moreover have "cstr ?b = ''ab''" by (simp add: cstr_def)
  moreover have "cstr (fst (snd ?r)) = ''aXb''" by (subst b1) (simp add: cstr_def)
  moreover have "fst ?r" by (subst ins) simp
  ultimately show ?thesis
    by (simp add: case_prod_beta)
qed


section \<open>C7, C8, C9: the command history\<close>

lemma length_shift_entries_down [simp]: "length (shift_entries_down a i n) = length a"
  by (induction n arbitrary: a i) auto

lemma shift_entries_down_nth:
  "1 \<le> i \<Longrightarrow> i + n \<le> length a \<Longrightarrow> j < length a \<Longrightarrow>
   shift_entries_down a i n ! j = (if i - 1 \<le> j \<and> j < i - 1 + n then a ! (j + 1) else a ! j)"
  by (induction n arbitrary: a i) (auto simp: nth_list_update)

lemma evict_oldest:
  assumes "0 < length a"
  shows "(shift_entries_down a 1 (length a - 1))[length a - 1 := e] = tl a @ [e]"
proof (rule nth_equalityI)
  show "length ((shift_entries_down a 1 (length a - 1))[length a - 1 := e]) = length (tl a @ [e])"
    using assms by simp
next
  fix j assume "j < length ((shift_entries_down a 1 (length a - 1))[length a - 1 := e])"
  then have j: "j < length a" by simp
  have "shift_entries_down a 1 (length a - 1) ! j = (if j < length a - 1 then a ! (j + 1) else a ! j)"
    using shift_entries_down_nth [of 1 "length a - 1" a j] assms j by simp
  then show "(shift_entries_down a 1 (length a - 1))[length a - 1 := e] ! j = (tl a @ [e]) ! j"
    using j assms by (auto simp: nth_list_update nth_append nth_tl)
qed

lemma cstr_eq_take_strnlen:
  "length b = cap \<Longrightarrow> take (strnlen b cap) b = cstr b"
  by (simp add: strnlen_def strlen_def cstr_def takeWhile_eq_take [symmetric])

lemma mos_strndup_ok:
  "alloc (strnlen b cap + 1) \<Longrightarrow> length b = cap \<Longrightarrow> mos_strndup alloc b cap = Some (cstr b)"
  by (simp add: mos_strndup_def Let_def cstr_eq_take_strnlen)

lemma history_store_entries:
  assumes "length (cmd_history h) = depth" "0 < depth" "history_size h \<le> depth"
  shows "length (cmd_history (history_store depth h e)) = depth"
    and "history_size (history_store depth h e) = min (history_size h + 1) depth"
    and "history_no (history_store depth h e) = history_no h"
    and "take (history_size (history_store depth h e)) (cmd_history (history_store depth h e))
         = (if history_size h = depth then tl (cmd_history h) @ [e]
            else take (history_size h) (cmd_history h) @ [e])"
proof -
  show "length (cmd_history (history_store depth h e)) = depth"
    using assms by (simp add: history_store_def Let_def)
  show "history_size (history_store depth h e) = min (history_size h + 1) depth"
    using assms by (auto simp: history_store_def Let_def)
  show "history_no (history_store depth h e) = history_no h"
    by (simp add: history_store_def Let_def)
  show "take (history_size (history_store depth h e)) (cmd_history (history_store depth h e))
         = (if history_size h = depth then tl (cmd_history h) @ [e]
            else take (history_size h) (cmd_history h) @ [e])"
  proof (cases "history_size h = depth")
    case True
    then show ?thesis
      using assms evict_oldest [of "cmd_history h" e]
      by (simp add: history_store_def Let_def)
  next
    case False
    then have "history_size h < length (cmd_history h)" using assms by simp
    then show ?thesis using False
      by (simp add: history_store_def Let_def take_Suc_conv_app_nth)
  qed
qed


lemma editHistoryPush_empty:
  "strnlen b cap = 0 \<Longrightarrow> editHistoryPush alloc depth h b cap = Some h"
  by (simp add: editHistoryPush_def)

lemma editHistoryPush_same_as_last:
  "0 < history_size h \<Longrightarrow> cmd_history h ! (history_size h - 1) = Some (cstr b) \<Longrightarrow>
   editHistoryPush alloc depth h b cap = Some h"
  by (simp add: editHistoryPush_def Let_def)

lemma editHistoryPush_stores:
  assumes "length b = cap" "0 < strnlen b cap" "alloc (strnlen b cap + 1)"
      and "history_size h = 0 \<or> (\<exists>e. cmd_history h ! (history_size h - 1) = Some e \<and> e \<noteq> cstr b)"
  shows "editHistoryPush alloc depth h b cap = Some (history_store depth h (Some (cstr b)))"
  using assms by (auto simp: editHistoryPush_def Let_def mos_strndup_ok)

lemma last_entry_after_store:
  assumes "length (cmd_history h) = depth" "0 < depth" "history_size h \<le> depth"
  shows "0 < history_size (history_store depth h e)
       \<and> cmd_history (history_store depth h e) ! (history_size (history_store depth h e) - 1) = e"
proof -
  let ?h = "history_store depth h e"
  have size: "history_size ?h = min (history_size h + 1) depth"
    by (rule history_store_entries(2) [OF assms])
  then have pos: "0 < history_size ?h" using assms by simp
  have le: "history_size ?h \<le> length (cmd_history ?h)"
    using size history_store_entries(1) [OF assms, of e] by simp
  obtain xs where xs: "take (history_size ?h) (cmd_history ?h) = xs @ [e]"
    using history_store_entries(4) [OF assms, of e] by (cases "history_size h = depth") auto
  have "cmd_history ?h ! (history_size ?h - 1) = take (history_size ?h) (cmd_history ?h) ! (history_size ?h - 1)"
    using pos by simp
  also have "\<dots> = (xs @ [e]) ! (length (xs @ [e]) - 1)"
    using xs le by (metis length_take min.absorb2)
  also have "\<dots> = e" by simp
  finally show ?thesis using pos by simp
qed

text \<open>
  C7. \<^verbatim>\<open>editHistoryPush\<close> leaves the history as it is (size, browsing cursor and
  every entry) when the line is empty, and when it equals the entry pushed last; so, of
  two pushes in a row of the same line whose copy could be allocated, the second changes
  nothing.
\<close>

theorem editHistoryPush_noop:
  "(strnlen buffer cap = 0 \<longrightarrow> editHistoryPush alloc depth h buffer cap = Some h)
 \<and> (0 < history_size h \<and> cmd_history h ! (history_size h - 1) = Some (cstr buffer)
      \<longrightarrow> editHistoryPush alloc depth h buffer cap = Some h)
 \<and> (0 < depth \<and> length (cmd_history h) = depth \<and> history_size h \<le> depth
      \<and> length buffer = cap \<and> alloc (strnlen buffer cap + 1)
      \<and> editHistoryPush alloc depth h buffer cap = Some h1
      \<longrightarrow> editHistoryPush alloc depth h1 buffer cap = Some h1)"
proof (intro conjI impI)
  assume "strnlen buffer cap = 0"
  then show "editHistoryPush alloc depth h buffer cap = Some h"
    by (rule editHistoryPush_empty)
next
  assume "0 < history_size h \<and> cmd_history h ! (history_size h - 1) = Some (cstr buffer)"
  then show "editHistoryPush alloc depth h buffer cap = Some h"
    by (simp add: editHistoryPush_same_as_last)
next
  assume a: "0 < depth \<and> length (cmd_history h) = depth \<and> history_size h \<le> depth
      \<and> length buffer = cap \<and> alloc (strnlen buffer cap + 1)
      \<and> editHistoryPush alloc depth h buffer cap = Some h1"
  show "editHistoryPush alloc depth h1 buffer cap = Some h1"
  proof (cases "h1 = h")
    case True
    then show ?thesis using a by simp
  next
    case False
    then have "h1 = history_store depth h (Some (cstr buffer))"
      using a by (auto simp: editHistoryPush_def Let_def mos_strndup_ok
          split: if_splits option.splits)
    then show ?thesis
      using a last_entry_after_store [of h depth "Some (cstr buffer)"]
      by (simp add: editHistoryPush_same_as_last)
  qed
qed

lemma push_sequence_append:
  "push_sequence alloc depth cap (bs @ [b]) h =
     (case push_sequence alloc depth cap bs h of
        None \<Rightarrow> None
      | Some h' \<Rightarrow> editHistoryPush alloc depth h' b cap)"
  by (induction bs arbitrary: h) (auto split: option.splits)

lemma push_sequence_invariant:
  assumes "0 < depth" and "\<forall>n. alloc n"
  shows "(\<forall>b \<in> set bs. length b = cap \<and> 0 < strnlen b cap) \<Longrightarrow> distinct (map cstr bs) \<Longrightarrow>
         \<exists>h. push_sequence alloc depth cap bs (editHistoryInit depth) = Some h
            \<and> length (cmd_history h) = depth
            \<and> history_size h = min (length bs) depth
            \<and> history_no h = 0
            \<and> take (history_size h) (cmd_history h)
                = map (\<lambda>b. Some (cstr b)) (drop (length bs - depth) bs)"
proof (induction bs rule: rev_induct)
  case Nil
  then show ?case by (simp add: editHistoryInit_def)
next
  case (snoc b bs)
  then obtain h where h: "push_sequence alloc depth cap bs (editHistoryInit depth) = Some h"
    and len: "length (cmd_history h) = depth"
    and size: "history_size h = min (length bs) depth"
    and no: "history_no h = 0"
    and ent: "take (history_size h) (cmd_history h)
                = map (\<lambda>b. Some (cstr b)) (drop (length bs - depth) bs)"
    by auto
  have b: "length b = cap" "0 < strnlen b cap" using snoc.prems by simp_all
  have le: "history_size h \<le> depth" using size by simp
  have last: "history_size h = 0
      \<or> (\<exists>e. cmd_history h ! (history_size h - 1) = Some e \<and> e \<noteq> cstr b)"
  proof (cases "bs = []")
    case True
    then show ?thesis using size by simp
  next
    case False
    then have pos: "0 < history_size h" using size assms by simp
    let ?d = "drop (length bs - depth) bs"
    have "0 < length bs" using False by simp
    then have lt: "length bs - depth < length bs" using assms(1) by arith
    then have d: "?d \<noteq> []" by simp
    then have ld: "length ?d - 1 < length ?d" by (simp del: length_drop)
    have "cmd_history h ! (history_size h - 1)
          = take (history_size h) (cmd_history h) ! (history_size h - 1)"
      using pos by simp
    also have "\<dots> = map (\<lambda>b. Some (cstr b)) ?d ! (length ?d - 1)"
      using ent size by (simp add: min_def)
    also have "\<dots> = Some (cstr (?d ! (length ?d - 1)))"
      using ld by (rule nth_map)
    also have "?d ! (length ?d - 1) = last ?d"
      by (rule last_conv_nth [OF d, symmetric])
    also have "last ?d = last bs" using lt by (rule last_drop)
    finally have "cmd_history h ! (history_size h - 1) = Some (cstr (last bs))" .
    moreover have "cstr (last bs) \<noteq> cstr b"
      using snoc.prems(2) last_in_set [OF False] by (auto simp: image_iff)
    ultimately show ?thesis by blast
  qed
  let ?h = "history_store depth h (Some (cstr b))"
  have push: "editHistoryPush alloc depth h b cap = Some ?h"
    using b assms last by (intro editHistoryPush_stores) auto
  have "take (history_size ?h) (cmd_history ?h)
        = map (\<lambda>b. Some (cstr b)) (drop (length (bs @ [b]) - depth) (bs @ [b]))"
  proof (cases "history_size h = depth")
    case True
    then have ge: "depth \<le> length bs" using size by (simp add: min_def split: if_splits)
    have "tl (cmd_history h) @ [Some (cstr b)]
          = map (\<lambda>b. Some (cstr b)) (drop (length bs - depth + 1) bs) @ [Some (cstr b)]"
      using ent True len by (simp add: drop_Suc map_tl [symmetric] tl_drop)
    then show ?thesis
      using history_store_entries(4) [OF len assms(1) le, of "Some (cstr b)"] True ge assms(1)
      by (simp add: Suc_diff_le)
  next
    case False
    then have lt: "length bs < depth" using size le by (simp add: min_def split: if_splits)
    then show ?thesis
      using history_store_entries(4) [OF len assms(1) le, of "Some (cstr b)"] False ent
      by simp
  qed
  moreover have "history_size ?h = min (length (bs @ [b])) depth"
    using history_store_entries(2) [OF len assms(1) le, of "Some (cstr b)"] size by simp
  moreover have "length (cmd_history ?h) = depth"
    by (rule history_store_entries(1) [OF len assms(1) le])
  moreover have "history_no ?h = 0"
    using history_store_entries(3) [OF len assms(1) le, of "Some (cstr b)"] no by simp
  ultimately show ?case
    using h push by (simp add: push_sequence_append)
qed


theorem editHistoryPush_noop_witness:
  "editHistoryPush (\<lambda>n. True) 2 (editHistoryInit 2) [NUL, CHR ''x''] 2 = Some (editHistoryInit 2)
 \<and> editHistoryPush (\<lambda>n. True) 2
       \<lparr>cmd_history = [Some ''DIR'', None], history_size = 1, history_no = 1\<rparr> (''DIR'' @ [NUL]) 4
     = Some \<lparr>cmd_history = [Some ''DIR'', None], history_size = 1, history_no = 1\<rparr>
 \<and> editHistoryPush (\<lambda>n. True) 2 (editHistoryInit 2) (''DIR'' @ [NUL]) 4
     = Some \<lparr>cmd_history = [Some ''DIR'', None], history_size = 1, history_no = 0\<rparr>
 \<and> editHistoryPush (\<lambda>n. True) 2
       \<lparr>cmd_history = [Some ''DIR'', None], history_size = 1, history_no = 0\<rparr> (''DIR'' @ [NUL]) 4
     = Some \<lparr>cmd_history = [Some ''DIR'', None], history_size = 1, history_no = 0\<rparr>"
proof -
  let ?ok = "\<lambda>n::nat. True"
  let ?h0 = "editHistoryInit 2"
  let ?h1 = "\<lparr>cmd_history = [Some ''DIR'', None], history_size = 1, history_no = 1\<rparr>"
  let ?h2 = "\<lparr>cmd_history = [Some ''DIR'', None], history_size = 1, history_no = 0\<rparr>"
  let ?b = "''DIR'' @ [NUL]"
  have first: "editHistoryPush ?ok 2 ?h0 ?b 4 = Some ?h2"
    by (simp add: editHistoryPush_def history_store_def editHistoryInit_def mos_strndup_def
        strnlen_def strlen_def cstr_def Let_def numeral_2_eq_2)
  have e: "strnlen [NUL, CHR ''x''] 2 = 0" by (simp add: strnlen_def strlen_def cstr_def)
  have l: "0 < history_size ?h1 \<and> cmd_history ?h1 ! (history_size ?h1 - 1) = Some (cstr ?b)"
    by (simp add: cstr_def)
  have s: "0 < (2::nat) \<and> length (cmd_history ?h0) = 2 \<and> history_size ?h0 \<le> 2
      \<and> length ?b = 4 \<and> ?ok (strnlen ?b 4 + 1) \<and> editHistoryPush ?ok 2 ?h0 ?b 4 = Some ?h2"
    using first by (simp add: editHistoryInit_def)
  from editHistoryPush_noop [of "[NUL, CHR ''x'']" 2 ?ok 2 ?h0] e
  have "editHistoryPush ?ok 2 ?h0 [NUL, CHR ''x''] 2 = Some ?h0" by blast
  moreover from editHistoryPush_noop [of ?b 4 ?ok 2 ?h1] l
  have "editHistoryPush ?ok 2 ?h1 ?b 4 = Some ?h1" by blast
  moreover from editHistoryPush_noop [of ?b 4 ?ok 2 ?h0 ?h2] s
  have "editHistoryPush ?ok 2 ?h2 ?b 4 = Some ?h2" by blast
  ultimately show ?thesis using first by simp
qed

text \<open>
  C8. Into an empty history of depth \<open>depth\<close>, \<open>depth + 1\<close> lines are pushed, each
  non-empty and null-terminated in its buffer, no two equal, every copy allocated: the
  store then holds \<open>depth\<close> entries, the lines but the first, in the order pushed.
\<close>

theorem history_fifo_eviction:
  assumes "0 < depth" and "\<forall>n. alloc n" and "length bs = depth + 1"
      and "\<forall>b \<in> set bs. length b = cap \<and> 0 < strnlen b cap \<and> strnlen b cap < cap"
      and "distinct (map cstr bs)"
  shows "push_sequence alloc depth cap bs (editHistoryInit depth)
         = Some \<lparr>cmd_history = map (\<lambda>b. Some (cstr b)) (tl bs), history_size = depth, history_no = 0\<rparr>"
proof -
  have "\<forall>b \<in> set bs. length b = cap \<and> 0 < strnlen b cap" using assms(4) by blast
  from push_sequence_invariant [OF assms(1,2) this assms(5)]
  obtain h where h: "push_sequence alloc depth cap bs (editHistoryInit depth) = Some h"
    and len: "length (cmd_history h) = depth"
    and size: "history_size h = min (length bs) depth"
    and no: "history_no h = 0"
    and ent: "take (history_size h) (cmd_history h)
                = map (\<lambda>b. Some (cstr b)) (drop (length bs - depth) bs)"
    by blast
  have "history_size h = depth" using size assms(3) by simp
  moreover have "cmd_history h = map (\<lambda>b. Some (cstr b)) (tl bs)"
    using ent len assms(3) \<open>history_size h = depth\<close> by (simp add: drop_Suc)
  ultimately have "h = \<lparr>cmd_history = map (\<lambda>b. Some (cstr b)) (tl bs), history_size = depth, history_no = 0\<rparr>"
    using no by (cases h) simp
  with h show ?thesis by simp
qed

theorem history_fifo_eviction_witness:
  "push_sequence (\<lambda>n. True) 2 4
     [''a'' @ [NUL, NUL, NUL], ''b'' @ [NUL, NUL, NUL], ''c'' @ [NUL, NUL, NUL]] (editHistoryInit 2)
   = Some \<lparr>cmd_history = [Some ''b'', Some ''c''], history_size = 2, history_no = 0\<rparr>"
proof -
  let ?bs = "[''a'' @ [NUL, NUL, NUL], ''b'' @ [NUL, NUL, NUL], ''c'' @ [NUL, NUL, NUL]]"
  have h1: "0 < (2::nat)" by simp
  have h2: "\<forall>n::nat. (\<lambda>n. True) n" by simp
  have h3: "length ?bs = 2 + 1" by simp
  have h4: "\<forall>b \<in> set ?bs. length b = 4 \<and> 0 < strnlen b 4 \<and> strnlen b 4 < 4"
    by (simp add: strnlen_def strlen_def cstr_def)
  have h5: "distinct (map cstr ?bs)" by (simp add: cstr_def)
  from history_fifo_eviction [OF h1 h2 h3 h4 h5]
  show ?thesis by (simp add: cstr_def)
qed

text \<open>
  C9. The allocator refuses the copy of the line ``DIR'' pushed into an empty history of
  depth 2: the push is not skipped. The NULL pointer is stored as entry 0 and counted,
  and the next push, comparing its line with that entry, reads through NULL.
\<close>

theorem editHistoryPush_allocation_failure:
  "editHistoryPush (\<lambda>n. False) 2 (editHistoryInit 2) (''DIR'' @ [NUL]) 4
     = Some \<lparr>cmd_history = [None, None], history_size = 1, history_no = 0\<rparr>
 \<and> editHistoryPush (\<lambda>n. True) 2 \<lparr>cmd_history = [None, None], history_size = 1, history_no = 0\<rparr>
       (''CAT'' @ [NUL]) 4 = None"
  by (simp add: editHistoryPush_def history_store_def editHistoryInit_def mos_strndup_def
      strnlen_def strlen_def cstr_def Let_def numeral_2_eq_2)


section \<open>C5, C6: hotkey expansion\<close>

lemma length_memcpy [simp]: "length (memcpy dst off src n) = length dst"
  by (induction n) auto

lemma memcpy_nth:
  "off + n \<le> length dst \<Longrightarrow> j < length dst \<Longrightarrow>
   memcpy dst off src n ! j = (if off \<le> j \<and> j < off + n then src ! (j - off) else dst ! j)"
  by (induction n) (auto simp: nth_list_update less_Suc_eq)

lemma memcpy_eq:
  assumes "off + n \<le> length dst" "n \<le> length src"
  shows "memcpy dst off src n = take off dst @ take n src @ drop (off + n) dst"
proof (rule nth_equalityI)
  show "length (memcpy dst off src n) = length (take off dst @ take n src @ drop (off + n) dst)"
    using assms by simp
next
  fix j assume "j < length (memcpy dst off src n)"
  then have j: "j < length dst" by simp
  show "memcpy dst off src n ! j = (take off dst @ take n src @ drop (off + n) dst) ! j"
    using assms j by (auto simp: memcpy_nth nth_append min_def)
qed

lemma take_strlen: "take (strlen b) b = cstr b"
  by (simp add: strlen_def cstr_def takeWhile_eq_take [symmetric])

lemma cstr_no_NUL: "NUL \<notin> set s \<Longrightarrow> cstr s = s"
  by (auto simp: cstr_def)

lemma strlen_no_NUL: "NUL \<notin> set s \<Longrightarrow> strlen s = length s"
  by (simp add: strlen_def cstr_no_NUL)

lemma cstr_take_le: "k \<le> strlen s \<Longrightarrow> cstr (take k s) = take k s"
proof -
  assume "k \<le> strlen s"
  then have "take k s = take k (cstr s)"
    by (metis min.absorb1 take_strlen take_take)
  then show ?thesis using NUL_notin_cstr [of s] 
    by (metis cstr_no_NUL in_set_takeD)
qed

lemma strnlen_eq_min: "strnlen s n = min (strlen s) n"
proof (cases "n \<le> strlen s")
  case True
  then have "cstr (take n s) = take n s" by (rule cstr_take_le)
  then show ?thesis using True strlen_le [of s] by (simp add: strnlen_def strlen_def)
next
  case False
  then have lt: "strlen s < n" by simp
  show ?thesis
  proof (cases "strlen s < length s")
    case True
    from cstr_split [OF True] obtain rest where s: "s = cstr s @ NUL # rest" by blast
    have "take n s = cstr s @ take (n - strlen s) (NUL # rest)"
      using lt by (subst s) (simp add: strlen_def)
    also have "\<dots> = cstr s @ NUL # take (n - strlen s - 1) rest"
      using lt by (cases "n - strlen s") simp_all
    finally have "cstr (take n s) = cstr s"
      by (simp add: cstr_append_NUL NUL_notin_cstr)
    then show ?thesis using lt by (simp add: strnlen_def strlen_def)
  next
    case False
    then have "length s \<le> n" using lt strlen_le [of s] by simp
    then show ?thesis using lt by (simp add: strnlen_def)
  qed
qed

lemma strbuf_append_eq:
  assumes "length buf = cap" "strnlen buf cap < cap"
  shows "strbuf_append buf cap str m
         = cstr buf @ take (min (strnlen str m) (cap - strnlen buf cap - 1)) str
             @ NUL # drop (strnlen buf cap + min (strnlen str m) (cap - strnlen buf cap - 1) + 1) buf"
proof -
  define k where "k = min (strnlen str m) (cap - strnlen buf cap - 1)"
  let ?len = "strnlen buf cap"
  have len: "?len = strlen buf" using assms by (simp add: strnlen_full)
  have lt: "strlen buf < length buf" using assms len by simp
  have count: "min (int (strnlen str m)) (int cap - int ?len - 1) = int k"
    using assms(2) unfolding k_def min_def by auto
  have k_le: "k \<le> length str"
    using strlen_le [of str] by (simp add: k_def strnlen_eq_min)
  have room: "?len + k < cap" using assms(2) by (simp add: k_def)
  have z: "buf ! ?len = NUL" using lt len by (simp add: strlen_nth_NUL)
  let ?buf1 = "if 0 < k then memcpy buf ?len str k else buf"
  have "?buf1 = take ?len buf @ take k str @ drop (?len + k) buf"
    using room assms(1) k_le by (simp add: memcpy_eq)
  then have "?buf1[?len + k := NUL] = take ?len buf @ take k str @ NUL # drop (?len + k + 1) buf"
    using room assms(1) k_le
    by (simp add: list_update_append min_def upd_conv_take_nth_drop drop_Suc [symmetric])
  moreover have "strbuf_append buf cap str m = ?buf1[?len + k := NUL]"
    unfolding strbuf_append_def Let_def count by (simp add: nat_add_distrib)
  ultimately show ?thesis unfolding k_def [symmetric] by (simp add: len take_strlen)
qed


lemma strbuf_append_cstr:
  assumes "length buf = cap" "strnlen buf cap < cap"
  shows "cstr (strbuf_append buf cap str m)
         = cstr buf @ take (min (strnlen str m) (cap - strnlen buf cap - 1)) str"
    and "length (strbuf_append buf cap str m) = cap"
    and "strnlen (strbuf_append buf cap str m) cap < cap"
proof -
  define k where "k = min (strnlen str m) (cap - strnlen buf cap - 1)"
  have eq: "strbuf_append buf cap str m
            = (cstr buf @ take k str) @ NUL # drop (strnlen buf cap + k + 1) buf"
    using strbuf_append_eq [OF assms, of str m] by (simp add: k_def)
  have len: "strnlen buf cap = strlen buf" using assms by (simp add: strnlen_full)
  have "k \<le> strlen str" by (simp add: k_def strnlen_eq_min)
  then have "take k str = take k (cstr str)"
    by (metis min.absorb1 take_strlen take_take)
  then have nz: "NUL \<notin> set (cstr buf @ take k str)"
    using NUL_notin_cstr [of buf] NUL_notin_cstr [of str] by (auto dest: in_set_takeD)
  show c: "cstr (strbuf_append buf cap str m)
         = cstr buf @ take (min (strnlen str m) (cap - strnlen buf cap - 1)) str"
    unfolding eq using nz by (simp add: cstr_append_NUL k_def del: append_assoc)
  have kl: "k \<le> length str" using \<open>k \<le> strlen str\<close> strlen_le [of str] by simp
  have room: "strnlen buf cap + k < cap" using assms(2) by (simp add: k_def)
  show l: "length (strbuf_append buf cap str m) = cap"
    unfolding eq using kl room assms(1) len by (simp add: strlen_def)
  have "strlen (strbuf_append buf cap str m) = strlen buf + k"
    using c kl by (simp add: strlen_def k_def)
  then show "strnlen (strbuf_append buf cap str m) cap < cap"
    using l room len by (simp add: strnlen_full)
qed

lemma cstr_NUL_first: "b \<noteq> [] \<Longrightarrow> cstr (b[0 := NUL]) = []"
  by (cases b) (simp_all add: cstr_def)

lemma strnlen_NUL_first: "b \<noteq> [] \<Longrightarrow> strnlen (b[0 := NUL]) cap = 0"
  by (cases b; cases cap) (simp_all add: strnlen_def strlen_def cstr_def)

lemma length_memset_buf [simp]: "length (memset_buf buf c n) = length buf"
  by (simp add: memset_buf_def)

lemma removeEditLine_buffer:
  "fst (removeEditLine con buffer insertPos len out) = (memset_buf buffer (CHR '' '') len)[0 := NUL]"
  by (simp add: removeEditLine_def Let_def)

lemma strstr_Some:
  "strstr hay needle = Some w \<Longrightarrow> w + length needle \<le> length hay \<and> take (length needle) (drop w hay) = needle"
proof (induction hay arbitrary: w)
  case Nil
  then show ?case by (simp split: if_splits)
next
  case (Cons c cs)
  show ?case
  proof (cases "take (length needle) (c # cs) = needle")
    case True
    then have "w = 0" using Cons.prems by simp
    moreover have "length (take (length needle) (c # cs)) = length needle"
      using True by simp
    then have "length needle \<le> length (c # cs)"
      unfolding length_take by arith
    ultimately show ?thesis using True by simp
  next
    case False
    then obtain w' where "strstr cs needle = Some w'" "w = Suc w'"
      using Cons.prems by auto
    then show ?thesis using Cons.IH [of w'] by simp
  qed
qed


lemma handleHotkey_no_memory:
  assumes "hotkeys fkey = Some hk" "strstr hk ''%s'' = Some w"
      and "w mod 256 + strlen buffer mod 256 + strlen (drop (w + 2) hk) mod 256 + 1 < bufferLength"
      and "\<not> alloc (w mod 256 + strlen buffer mod 256 + strlen (drop (w + 2) hk) mod 256 + 1)"
  shows "handleHotkey con alloc hotkeys fkey buffer bufferLength insertPos len out
         = (False, buffer, out)"
  using assms by (simp add: handleHotkey_def Let_def)

lemma handleHotkey_expands:
  fixes P R S :: nat
  assumes hk: "hotkeys fkey = Some hk" "strstr hk ''%s'' = Some w" "NUL \<notin> set hk"
      and buf: "length buffer = bufferLength" "strnlen buffer bufferLength < bufferLength"
      and P: "P = w mod 256" and R: "R = strlen buffer mod 256"
      and S: "S = strlen (drop (w + 2) hk) mod 256"
      and fits: "P + R + S + 1 < bufferLength"
      and mem: "alloc (P + R + S + 1)"
  shows "fst (handleHotkey con alloc hotkeys fkey buffer bufferLength insertPos len out)
       \<and> cstr (fst (snd (handleHotkey con alloc hotkeys fkey buffer bufferLength insertPos len out)))
           = take P hk @ take (min (strlen buffer) (R + S)) (cstr buffer)
               @ take (R + S - min (strlen buffer) (R + S)) (drop (w + 2) hk)"
proof -
  define rc where "rc = P + R + S + 1"
  define sfx where "sfx = drop (w + 2) hk"
  define k2 where "k2 = min (strlen buffer) (R + S)"
  define r0 where "r0 = (replicate rc NUL)[0 := NUL]"
  define r1 where "r1 = strbuf_append r0 rc hk P"
  define r2 where "r2 = strbuf_append r1 rc buffer (strnlen buffer bufferLength)"
  define r3 where "r3 = strbuf_append r2 rc sfx rc"
  define b1 where "b1 = (fst (removeEditLine con buffer insertPos len out))[0 := NUL]"
  define b2 where "b2 = strbuf_append b1 bufferLength r3 rc"
  have w: "w + 2 \<le> length hk" using strstr_Some [OF hk(2)] by simp
  have Pw: "P \<le> length hk" using w P by (simp add: le_trans [OF mod_less_eq_dividend])
  have L: "strnlen buffer bufferLength = strlen buffer" using buf by (simp add: strnlen_full)
  have r0: "length r0 = rc" "strnlen r0 rc < rc" "cstr r0 = []" "strnlen r0 rc = 0"
    by (simp_all add: r0_def rc_def strnlen_def strlen_def cstr_def)
  have d1: "rc - strnlen r0 rc - 1 = P + R + S" unfolding r0(4) by (simp add: rc_def)
  have k1: "min (strnlen hk P) (rc - strnlen r0 rc - 1) = P"
    unfolding d1 using Pw hk(3) by (simp add: strnlen_eq_min strlen_no_NUL)
  have r1c: "cstr r1 = take P hk"
    using strbuf_append_cstr(1) [OF r0(1,2), of hk P] unfolding k1 r0(3) r1_def by simp
  have r1: "length r1 = rc" "strnlen r1 rc < rc"
    using strbuf_append_cstr(2,3) [OF r0(1,2)] unfolding r1_def by blast+
  have "strlen r1 = P" unfolding strlen_def r1c using Pw by simp
  then have r1n: "strnlen r1 rc = P"
    using r1(1) by (simp add: strnlen_full)
  have d2: "rc - strnlen r1 rc - 1 = R + S" unfolding r1n by (simp add: rc_def)
  have k2': "min (strnlen buffer (strnlen buffer bufferLength)) (rc - strnlen r1 rc - 1) = k2"
    unfolding d2 L by (simp add: strnlen_eq_min k2_def)
  have t2: "take k2 buffer = take k2 (cstr buffer)"
    unfolding k2_def by (metis min.cobounded1 min.absorb1 take_strlen take_take)
  have r2c: "cstr r2 = take P hk @ take k2 (cstr buffer)"
    using strbuf_append_cstr(1) [OF r1, of buffer "strnlen buffer bufferLength"]
    unfolding k2' r1c t2 r2_def .
  have r2: "length r2 = rc" "strnlen r2 rc < rc"
    using strbuf_append_cstr(2,3) [OF r1] unfolding r2_def by blast+
  have "length (take k2 (cstr buffer)) = k2"
    by (simp add: k2_def strlen_def)
  then have "strlen r2 = P + k2"
    unfolding strlen_def r2c using Pw by simp
  then have r2n: "strnlen r2 rc = P + k2"
    using r2(1) by (simp add: strnlen_full)
  have sl: "strlen sfx = length sfx"
    using hk(3) unfolding sfx_def by (intro strlen_no_NUL) (auto dest: in_set_dropD)
  have n3: "strnlen sfx rc = min (length sfx) rc" by (simp add: strnlen_eq_min sl)
  have d3: "rc - strnlen r2 rc - 1 = R + S - k2" unfolding r2n by (simp add: rc_def)
  have "R + S - k2 \<le> rc" by (simp add: rc_def)
  then have "take (min (strnlen sfx rc) (rc - strnlen r2 rc - 1)) sfx = take (R + S - k2) sfx"
    unfolding n3 d3 by (simp add: min_def)
  then have r3c: "cstr r3 = take P hk @ take k2 (cstr buffer) @ take (R + S - k2) sfx"
    using strbuf_append_cstr(1) [OF r2, of sfx rc] unfolding r2c r3_def by simp
  have r3: "length r3 = rc" "strnlen r3 rc < rc"
    using strbuf_append_cstr(2,3) [OF r2] unfolding r3_def by blast+
  have r3n: "strlen r3 < rc"
    using r3(2) r3(1) by (simp add: strnlen_full)
  have "length (fst (removeEditLine con buffer insertPos len out)) = bufferLength"
    using buf by (simp add: removeEditLine_buffer)
  then have ne: "fst (removeEditLine con buffer insertPos len out) \<noteq> []"
    using fits by auto
  have b1: "length b1 = bufferLength" "strnlen b1 bufferLength < bufferLength"
    "cstr b1 = []" "strnlen b1 bufferLength = 0"
    using buf fits ne
    by (simp_all add: b1_def removeEditLine_buffer strnlen_NUL_first cstr_NUL_first)
  have d4: "bufferLength - strnlen b1 bufferLength - 1 = bufferLength - 1"
    unfolding b1(4) by simp
  have k4: "min (strnlen r3 rc) (bufferLength - strnlen b1 bufferLength - 1) = strlen r3"
    unfolding d4 using r3n fits by (simp add: strnlen_eq_min rc_def)
  have "cstr b2 = take (strlen r3) r3"
    using strbuf_append_cstr(1) [OF b1(1,2), of r3 rc] unfolding k4 b1(3) b2_def by simp
  then have b2c: "cstr b2 = take P hk @ take k2 (cstr buffer) @ take (R + S - k2) sfx"
    unfolding take_strlen r3c .
  have "handleHotkey con alloc hotkeys fkey buffer bufferLength insertPos len out
        = (True, b2, printf_s b2 (snd (removeEditLine con buffer insertPos len out)))"
    using hk(1,2) fits mem
    unfolding b2_def b1_def r3_def r2_def r1_def r0_def sfx_def rc_def P R S
    by (simp add: handleHotkey_def Let_def case_prod_beta)
  with b2c show ?thesis unfolding k2_def sfx_def by simp
qed


lemma handleHotkey_expands_short_line:
  assumes "hotkeys fkey = Some hk" "strstr hk ''%s'' = Some w" "NUL \<notin> set hk"
      and "length buffer = bufferLength" "strnlen buffer bufferLength < bufferLength"
      and "length hk \<le> 256" "strlen buffer < 256"
      and "w + strlen buffer + (length hk - (w + 2)) + 1 < bufferLength"
      and "alloc (w + strlen buffer + (length hk - (w + 2)) + 1)"
  shows "fst (handleHotkey con alloc hotkeys fkey buffer bufferLength insertPos len out)
       \<and> cstr (fst (snd (handleHotkey con alloc hotkeys fkey buffer bufferLength insertPos len out)))
           = take w hk @ cstr buffer @ drop (w + 2) hk"
proof -
  have w: "w + 2 \<le> length hk" using strstr_Some [OF assms(2)] by simp
  have sl: "strlen (drop (w + 2) hk) = length hk - (w + 2)"
    using assms(3) by (subst strlen_no_NUL) (auto dest: in_set_dropD)
  have P: "w = w mod 256" using w assms(6) by simp
  have R: "strlen buffer = strlen buffer mod 256" using assms(7) by simp
  have S: "length hk - (w + 2) = strlen (drop (w + 2) hk) mod 256"
    using sl assms(6) by simp
  from handleHotkey_expands [where hotkeys = hotkeys and fkey = fkey and alloc = alloc
      and con = con and insertPos = insertPos and len = len and out = out,
      OF assms(1-5) P R S assms(8,9)]
  show ?thesis by (simp add: strlen_def)
qed

lemma handleHotkey_example:
  "cstr (fst (snd (handleHotkey \<lparr>get_cursor_pos = (\<lambda>sent. 0), scrcols = 80\<rparr> (\<lambda>n. True)
       (\<lambda>k. if k = 0 then Some ''RUN %s.bin'' else None) 0
       (''TEST'' @ replicate 12 NUL) 16 4 4 []))) = ''RUN TEST.bin''"
proof -
  let ?hot = "\<lambda>k::nat. if k = 0 then Some ''RUN %s.bin'' else None"
  let ?b = "''TEST'' @ replicate 12 NUL"
  have len: "strlen ?b = 4" by (simp add: strlen_def cstr_def)
  have h: "?hot 0 = Some ''RUN %s.bin''" "strstr ''RUN %s.bin'' ''%s'' = Some 4"
    "NUL \<notin> set ''RUN %s.bin''" "length ?b = 16" "strnlen ?b 16 < 16"
    "length ''RUN %s.bin'' \<le> 256" "strlen ?b < 256"
    by (simp_all add: strnlen_def strlen_def cstr_def)
  have f: "4 + strlen ?b + (length ''RUN %s.bin'' - (4 + 2)) + 1 < (16::nat)"
    unfolding len by simp
  have a: "(\<lambda>n::nat. True) (4 + strlen ?b + (length ''RUN %s.bin'' - (4 + 2)) + 1)" by simp
  from handleHotkey_expands_short_line [where hotkeys = ?hot and fkey = 0
      and alloc = "\<lambda>n. True" and insertPos = 4 and len = 4 and out = "[]"
      and con = "\<lparr>get_cursor_pos = (\<lambda>sent. 0), scrcols = 80\<rparr>", OF h f a]
  show ?thesis by (simp add: cstr_def)
qed

text \<open>
  C5. A console line longer than 255 characters: the buffer has capacity 300 and holds
  256 letters, F1 is bound to \<open>X%s\<close>. The length of the line is kept in a \<^verbatim>\<open>uint8_t\<close>
  and so taken as 0; the expansion succeeds and replaces the line with \<open>X\<close> alone,
  not with \<open>X\<close> followed by the 256 letters.
\<close>

theorem handleHotkey_long_line_truncated:
  "fst (handleHotkey \<lparr>get_cursor_pos = (\<lambda>sent. 0), scrcols = 80\<rparr> (\<lambda>n. True)
         (\<lambda>k. if k = 0 then Some ''X%s'' else None) 0
         (replicate 256 (CHR ''A'') @ replicate 44 NUL) 300 256 256 [])
 \<and> cstr (fst (snd (handleHotkey \<lparr>get_cursor_pos = (\<lambda>sent. 0), scrcols = 80\<rparr> (\<lambda>n. True)
         (\<lambda>k. if k = 0 then Some ''X%s'' else None) 0
         (replicate 256 (CHR ''A'') @ replicate 44 NUL) 300 256 256 []))) = ''X''"
proof -
  let ?hot = "\<lambda>k::nat. if k = 0 then Some ''X%s'' else None"
  let ?b = "replicate 256 (CHR ''A'') @ replicate 44 NUL"
  have "replicate 44 NUL = NUL # replicate 43 NUL" by (simp add: numeral_eq_Suc)
  then have len: "strlen ?b = 256"
    using strlen_append_NUL [of "replicate 256 (CHR ''A'')" "replicate 43 NUL"] by simp
  have h: "?hot 0 = Some ''X%s''" "strstr ''X%s'' ''%s'' = Some 1" "NUL \<notin> set ''X%s''"
    by simp_all
  have b: "length ?b = 300" "strnlen ?b 300 < 300"
    by (simp_all add: strnlen_eq_min len)
  have P: "(1::nat) = 1 mod 256" by simp
  have R: "(0::nat) = strlen ?b mod 256" unfolding len by simp
  have S: "(0::nat) = strlen (drop (1 + 2) ''X%s'') mod 256"
    by (simp add: strlen_def cstr_def)
  have fits: "(1::nat) + 0 + 0 + 1 < 300" by simp
  have a: "(\<lambda>n::nat. True) (1 + 0 + 0 + 1)" by simp
  from handleHotkey_expands [where hotkeys = ?hot and fkey = 0
      and alloc = "\<lambda>n. True" and insertPos = 256 and len = 256 and out = "[]"
      and con = "\<lparr>get_cursor_pos = (\<lambda>sent. 0), scrcols = 80\<rparr>", OF h b P R S fits a]
  show ?thesis by simp
qed



lemma fkey_of_Some_cases:
  "fkey_of v = Some k \<Longrightarrow>
   v \<in> {VK_F1, VK_F2, VK_F3, VK_F4, VK_F5, VK_F6, VK_F7, VK_F8, VK_F9, VK_F10, VK_F11, VK_F12}"
  by (cases v) simp_all





section \<open>C3: the common prefix of the candidates\<close>

lemma toupper_simps [simp]:
  "toupper (CHR ''C'') = CHR ''C''" "toupper (CHR ''D'') = CHR ''D''"
  "toupper (CHR ''O'') = CHR ''O''" "toupper (CHR ''L'') = CHR ''L''"
  by (simp_all add: toupper_def)

lemma tab_collect_example:
  "tab_collect example_env False (''C'' @ replicate 15 NUL) 16 1 out
   = (\<lparr>num_matches = 3, cmdline = ''C'' @ replicate 15 NUL, cmdline_insertpos = 1,
       expansion = [], candidates = []\<rparr>, out)"
  by (simp add: tab_collect_def example_env_def find_first_nonspace_chr_def
      try_tab_expand_bin_name_def notify_tab_expansion_def strncasecmp_eq_def cstr_def
      strlen_def size_t_of_def tolower_def Let_def)

lemma do_tab_complete_example:
  "do_tab_complete example_env False (''C'' @ replicate 15 NUL) 16 1 out
   = (''C'' @ replicate 15 NUL, 1, True, out)"
  unfolding do_tab_complete_def tab_collect_example
  by (simp add: tab_apply_def strlen_def cstr_def Let_def)




lemma truncate_expansion_prefix:
  "truncate_expansion acc s = take (length (truncate_expansion acc s)) acc"
  by (induction acc s rule: truncate_expansion.induct) auto

lemma truncate_expansion_matches:
  "map toupper (truncate_expansion acc s) = map toupper (take (length (truncate_expansion acc s)) s)"
  by (induction acc s rule: truncate_expansion.induct) auto

lemma truncate_expansion_longest:
  "NUL \<notin> set s \<Longrightarrow> k \<le> length acc \<Longrightarrow> k \<le> length s \<Longrightarrow>
   map toupper (take k acc) = map toupper (take k s) \<Longrightarrow>
   k \<le> length (truncate_expansion acc s)"
proof (induction acc s arbitrary: k rule: truncate_expansion.induct)
  case (1 es)
  then show ?case by simp
next
  case (2 a acc)
  then show ?case by simp
next
  case (3 a acc e es)
  show ?case
  proof (cases k)
    case 0
    then show ?thesis by simp
  next
    case (Suc k')
    then have "toupper a = toupper e" "map toupper (take k' acc) = map toupper (take k' es)"
      using "3.prems" by simp_all
    moreover have "e \<noteq> NUL" using "3.prems" by auto
    ultimately show ?thesis
      using "3.IH" [of k'] "3.prems" Suc by simp
  qed
qed

lemma notify_tab_expansion_fields:
  "expansion (fst (notify_tab_expansion env showall ctx ty full fullLen sfx sfxLen out))
     = (if num_matches ctx = 0
        then cstr (take (min (size_t_of sfxLen) (expansion_size env - 1)) sfx)
        else truncate_expansion (expansion ctx) sfx)"
  "num_matches (fst (notify_tab_expansion env showall ctx ty full fullLen sfx sfxLen out))
     = num_matches ctx + 1"
  "cmdline (fst (notify_tab_expansion env showall ctx ty full fullLen sfx sfxLen out)) = cmdline ctx"
  "cmdline_insertpos (fst (notify_tab_expansion env showall ctx ty full fullLen sfx sfxLen out))
     = cmdline_insertpos ctx"
  by (simp_all add: notify_tab_expansion_def Let_def split: option.splits)


lemma edit_loop_continue:
  "edit_step env n flags ev st = Some st' \<Longrightarrow> st_keyr st' = NUL \<Longrightarrow>
   edit_loop env n flags (ev # evs) st = edit_loop env n flags evs st'"
  by simp

lemma edit_loop_exit:
  "edit_step env n flags ev st = Some st' \<Longrightarrow> st_keyr st' \<noteq> NUL \<Longrightarrow>
   edit_loop env n flags (ev # evs) st = finish env st'"
  by simp

lemma mos_EDITLINE_tab_example:
  "mos_EDITLINE example_env (replicate 16 NUL) 16 3 (editHistoryInit 16) []
     [\<lparr>ascii = CHR ''C'', vkey = VK_OTHER\<rparr>, \<lparr>ascii = CHR 0x09, vkey = VK_OTHER\<rparr>]
   = AwaitsKey \<lparr>st_buffer = ''C'' @ replicate 15 NUL, st_insertPos = 1, st_len = 1,
        st_keyr = NUL, st_hist = editHistoryInit 16, st_showall = True, st_out = ''C''\<rparr>"
proof -
  let ?st0 = "\<lparr>st_buffer = replicate 16 NUL, st_insertPos = 0, st_len = 0,
        st_keyr = NUL, st_hist = editHistoryInit 16, st_showall = False, st_out = []\<rparr>"
  let ?st1 = "\<lparr>st_buffer = ''C'' @ replicate 15 NUL, st_insertPos = 1, st_len = 0,
        st_keyr = NUL, st_hist = editHistoryInit 16, st_showall = False, st_out = ''C''\<rparr>"
  let ?st2 = "\<lparr>st_buffer = ''C'' @ replicate 15 NUL, st_insertPos = 1, st_len = 1,
        st_keyr = NUL, st_hist = editHistoryInit 16, st_showall = True, st_out = ''C''\<rparr>"
  have s1: "edit_step example_env 16 3 \<lparr>ascii = CHR ''C'', vkey = VK_OTHER\<rparr> ?st0 = Some ?st1"
    by (simp add: edit_step_def key_action_def ascii_key_def history_action_def
        insertCharacter_def strnlen_def strlen_def cstr_def putch_def Let_def example_env_def
        numeral_eq_Suc bit_0)
  have s2: "edit_step example_env 16 3 \<lparr>ascii = CHR 0x09, vkey = VK_OTHER\<rparr> ?st1 = Some ?st2"
    apply (simp add: edit_step_def key_action_def ascii_key_def history_action_def bit_0 Let_def)
    apply (simp add: do_tab_complete_example [simplified] strlen_def cstr_def)
    done
  have init: "mos_EDITLINE example_env (replicate 16 NUL) 16 3 (editHistoryInit 16) [] evs
        = edit_loop example_env 16 3 evs ?st0" for evs
  proof -
    have "(replicate 16 NUL)[0 := NUL] = replicate 16 NUL"
      by (simp add: list_eq_iff_nth_eq nth_list_update)
    then show ?thesis
      by (simp add: mos_EDITLINE_def bit_0 editHistoryInit_def Let_def)
  qed
  show ?thesis
    unfolding init using edit_loop_continue [OF s1] edit_loop_continue [OF s2] by simp
qed


text \<open>
  One report of a candidate whose suffix \<open>sfx\<close> ends at its terminator, as the internal
  commands and the file arguments are reported (a C string that fits the accumulator
  array, passed with its own length): the first report sets the accumulator to \<open>sfx\<close>;
  a later one cuts it to the longest prefix of the accumulator that agrees with \<open>sfx\<close>
  letter by letter up to case; each report counts one match. In the setting of the
  specification's example (command table \<open>CD\<close>, \<open>COPY\<close>, \<open>CLS\<close>, no file matching),
  with \<open>C\<close> typed: the enumeration ends with three matches and an empty accumulator, the
  completion leaves buffer and cursor as they were and sets the show-all flag; and so does
  the editor, given the keys \<open>C\<close> and Tab.
\<close>

lemma notify_tab_expansion_exact_suffix:
  assumes "NUL \<notin> set sfx" and "length sfx < expansion_size env" and "expansion_size env \<le> 2 ^ 24"
  shows "(num_matches ctx = 0 \<longrightarrow>
            expansion (fst (notify_tab_expansion env showall ctx ty full fullLen sfx
                              (int (length sfx)) out)) = sfx)
       \<and> (0 < num_matches ctx \<longrightarrow>
            (\<exists>k. expansion (fst (notify_tab_expansion env showall ctx ty full fullLen sfx
                                    (int (length sfx)) out)) = take k (expansion ctx))
          \<and> map toupper (expansion (fst (notify_tab_expansion env showall ctx ty full fullLen sfx
                                            (int (length sfx)) out)))
              = map toupper (take (length (expansion (fst (notify_tab_expansion env showall ctx ty
                                                              full fullLen sfx (int (length sfx)) out))))
                               sfx)
          \<and> (\<forall>k. k \<le> length (expansion ctx) \<and> k \<le> length sfx
                    \<and> map toupper (take k (expansion ctx)) = map toupper (take k sfx)
                  \<longrightarrow> k \<le> length (expansion (fst (notify_tab_expansion env showall ctx ty full
                                                         fullLen sfx (int (length sfx)) out)))))
       \<and> num_matches (fst (notify_tab_expansion env showall ctx ty full fullLen sfx
                              (int (length sfx)) out)) = num_matches ctx + 1
       \<and> tab_collect example_env False (''C'' @ replicate 15 NUL) 16 1 []
            = (\<lparr>num_matches = 3, cmdline = ''C'' @ replicate 15 NUL, cmdline_insertpos = 1,
                expansion = [], candidates = []\<rparr>, [])
       \<and> do_tab_complete example_env False (''C'' @ replicate 15 NUL) 16 1 []
            = (''C'' @ replicate 15 NUL, 1, True, [])
       \<and> mos_EDITLINE example_env (replicate 16 NUL) 16 3 (editHistoryInit 16) []
            [\<lparr>ascii = CHR ''C'', vkey = VK_OTHER\<rparr>, \<lparr>ascii = CHR 0x09, vkey = VK_OTHER\<rparr>]
            = AwaitsKey \<lparr>st_buffer = ''C'' @ replicate 15 NUL, st_insertPos = 1, st_len = 1,
                st_keyr = NUL, st_hist = editHistoryInit 16, st_showall = True, st_out = ''C''\<rparr>"
proof -
  let ?r = "expansion (fst (notify_tab_expansion env showall ctx ty full fullLen sfx
                              (int (length sfx)) out))"
  have "size_t_of (int (length sfx)) = length sfx"
    using assms(2,3) by (simp add: size_t_of_def nat_mod_distrib flip: of_nat_power)
  then have seed: "num_matches ctx = 0 \<longrightarrow> ?r = sfx"
    using assms(1,2) by (simp add: notify_tab_expansion_fields cstr_no_NUL)
  have later: "0 < num_matches ctx \<Longrightarrow> ?r = truncate_expansion (expansion ctx) sfx"
    by (simp add: notify_tab_expansion_fields)
  have cut: "0 < num_matches ctx \<longrightarrow>
       (\<exists>k. ?r = take k (expansion ctx))
     \<and> map toupper ?r = map toupper (take (length ?r) sfx)
     \<and> (\<forall>k. k \<le> length (expansion ctx) \<and> k \<le> length sfx
               \<and> map toupper (take k (expansion ctx)) = map toupper (take k sfx)
             \<longrightarrow> k \<le> length ?r)"
  proof
    assume pos: "0 < num_matches ctx"
    have "\<exists>k. ?r = take k (expansion ctx)"
      unfolding later [OF pos] using truncate_expansion_prefix by blast
    moreover have "map toupper ?r = map toupper (take (length ?r) sfx)"
      unfolding later [OF pos] by (rule truncate_expansion_matches)
    moreover have "\<forall>k. k \<le> length (expansion ctx) \<and> k \<le> length sfx
               \<and> map toupper (take k (expansion ctx)) = map toupper (take k sfx)
             \<longrightarrow> k \<le> length ?r"
      unfolding later [OF pos] using truncate_expansion_longest [OF assms(1)] by blast
    ultimately show "(\<exists>k. ?r = take k (expansion ctx))
     \<and> map toupper ?r = map toupper (take (length ?r) sfx)
     \<and> (\<forall>k. k \<le> length (expansion ctx) \<and> k \<le> length sfx
               \<and> map toupper (take k (expansion ctx)) = map toupper (take k sfx)
             \<longrightarrow> k \<le> length ?r)"
      by blast
  qed
  have count: "num_matches (fst (notify_tab_expansion env showall ctx ty full fullLen sfx
                              (int (length sfx)) out)) = num_matches ctx + 1"
    by (rule notify_tab_expansion_fields)
  from seed cut count tab_collect_example [of "[]"] do_tab_complete_example [of "[]"] mos_EDITLINE_tab_example show ?thesis by blast
qed


lemma notify_tab_expansion_exact_suffix_example:
  "expansion (fst (notify_tab_expansion example_env False
       \<lparr>num_matches = 0, cmdline = ''C'', cmdline_insertpos = 1, expansion = [], candidates = []\<rparr>
       ExpandNormal ''COPY'' 4 ''OPY'' (int (length ''OPY'')) [])) = ''OPY''
 \<and> expansion (fst (notify_tab_expansion example_env False
       \<lparr>num_matches = 1, cmdline = ''C'', cmdline_insertpos = 1, expansion = ''OPY'', candidates = []\<rparr>
       ExpandNormal ''Copt'' 4 ''opt'' (int (length ''opt'')) [])) = ''OP''
 \<and> num_matches (fst (notify_tab_expansion example_env False
       \<lparr>num_matches = 1, cmdline = ''C'', cmdline_insertpos = 1, expansion = ''OPY'', candidates = []\<rparr>
       ExpandNormal ''Copt'' 4 ''opt'' (int (length ''opt'')) [])) = 2"
proof -
  let ?c0 = "\<lparr>num_matches = 0, cmdline = ''C'', cmdline_insertpos = 1, expansion = [], candidates = []\<rparr>"
  let ?c1 = "\<lparr>num_matches = 1, cmdline = ''C'', cmdline_insertpos = 1, expansion = ''OPY'', candidates = []\<rparr>"
  have e: "expansion_size example_env = 128" by (simp add: example_env_def)
  have h1: "NUL \<notin> set ''OPY''" "length ''OPY'' < expansion_size example_env"
    "expansion_size example_env \<le> 2 ^ 24"
    unfolding e by simp_all
  have h2: "NUL \<notin> set ''opt''" "length ''opt'' < expansion_size example_env"
    unfolding e by simp_all
  note t1 = notify_tab_expansion_exact_suffix [OF h1, where ctx = ?c0 and showall = False
      and ty = ExpandNormal and full = "''COPY''" and fullLen = 4 and out = "[]"]
  note t2 = notify_tab_expansion_exact_suffix [OF h2 h1(3), where ctx = ?c1 and showall = False
      and ty = ExpandNormal and full = "''Copt''" and fullLen = 4 and out = "[]"]
  from t1 have "expansion (fst (notify_tab_expansion example_env False ?c0
       ExpandNormal ''COPY'' 4 ''OPY'' (int (length ''OPY'')) [])) = ''OPY''"
    by simp
  moreover from t2 have "num_matches (fst (notify_tab_expansion example_env False ?c1
       ExpandNormal ''Copt'' 4 ''opt'' (int (length ''opt'')) [])) = 2"
    by simp
  moreover have "expansion (fst (notify_tab_expansion example_env False ?c1
       ExpandNormal ''Copt'' 4 ''opt'' (int (length ''opt'')) [])) = ''OP''"
    by (simp add: notify_tab_expansion_fields toupper_def char_of_def bit_0)
  ultimately show ?thesis by blast
qed


lemma toupper_bin_simps:
  "toupper (CHR ''s'') = CHR ''S''" "toupper (CHR ''t'') = CHR ''T''"
  "toupper (CHR ''.'') = CHR ''.''" "toupper (CHR ''b'') = CHR ''B''"
  "toupper (CHR ''a'') = CHR ''A''" "toupper (CHR ''i'') = CHR ''I''"
  by (simp_all add: toupper_def char_of_def bit_0)

lemma search_term_te:
  "cstr (strbuf_append (strbuf_append ((replicate 128 NUL)[0 := NUL]) 128 (''te'' @ replicate 14 NUL) 2)
       128 ''*.bin'' 128) = ''te*.bin''"
  by (simp add: strbuf_append_def strnlen_def strlen_def cstr_def Let_def numeral_eq_Suc)

lemma bin_name_example:
  "try_tab_expand_bin_name bin_env False
     \<lparr>num_matches = 0, cmdline = ''te'' @ replicate 14 NUL, cmdline_insertpos = 2,
       expansion = [], candidates = []\<rparr> []
   = (\<lparr>num_matches = 2, cmdline = ''te'' @ replicate 14 NUL, cmdline_insertpos = 2,
       expansion = ''st.b'', candidates = []\<rparr>, [])"
  unfolding try_tab_expand_bin_name_def
  apply (simp only: tab_expansion_context.simps search_term_te Let_def)
  apply (simp add: bin_env_def example_env_def notify_tab_expansion_def toupper_bin_simps
      strlen_def cstr_def size_t_of_def Let_def)
  done

lemma tab_collect_bin_example:
  "tab_collect bin_env False (''te'' @ replicate 14 NUL) 16 2 []
   = (\<lparr>num_matches = 2, cmdline = ''te'' @ replicate 14 NUL, cmdline_insertpos = 2,
       expansion = ''st.b'', candidates = []\<rparr>, [])"
proof -
  have cmds: "mosCommands bin_env = [''CD'', ''COPY'', ''CLS'']"
    by (simp add: bin_env_def example_env_def)
  have int_cmd: "try_tab_expand_internal_cmd bin_env False (mosCommands bin_env)
      \<lparr>num_matches = 0, cmdline = ''te'' @ replicate 14 NUL, cmdline_insertpos = 2,
        expansion = [], candidates = []\<rparr> []
    = (\<lparr>num_matches = 0, cmdline = ''te'' @ replicate 14 NUL, cmdline_insertpos = 2,
        expansion = [], candidates = []\<rparr>, [])"
    unfolding cmds by (simp add: strncasecmp_eq_def cstr_def tolower_def char_of_def bit_0)
  have g: "find_first_nonspace_chr (''te'' @ replicate 14 NUL) 16 = CHR ''t''"
    "slice_strrchr (''te'' @ replicate 14 NUL) 2 (CHR '' '') = None"
    by (simp_all add: find_first_nonspace_chr_def numeral_2_eq_2)
  have guard: "\<not> (CHR ''t'' = CHR ''.'' \<or> CHR ''t'' = CHR ''/'' \<or> (None :: nat option) \<noteq> None)"
    by simp
  show ?thesis
    unfolding tab_collect_def Let_def g int_cmd
    by (simp only: guard if_False prod.case bin_name_example)
qed

lemma do_tab_complete_bin_example:
  "do_tab_complete bin_env False (''te'' @ replicate 14 NUL) 16 2 []
   = (''test.b'' @ replicate 10 NUL, 6, False, ''st.b'')"
  unfolding do_tab_complete_def tab_collect_bin_example
  apply (simp add: tab_apply_def strlen_def cstr_def Let_def)
  apply (simp add: strbuf_insert_def strlen_def cstr_def printf_prec_def Let_def numeral_eq_Suc)
  done

text \<open>
  C3 fails for the programs found on disk. \<^verbatim>\<open>try_tab_expand_bin_name\<close> reports a file
  name with a length that leaves \<open>.bin\<close> out; the first report honours that length,
  the later ones compare up to the terminator of the name. With \<open>te\<close> typed and the
  files \<open>test.backup.bin\<close>, \<open>test.bin\<close> found in this order: the first report seeds
  \<open>st.backup\<close>; the suffix of the second candidate is \<open>st\<close> (what its report seeds
  when it comes first), and the longest prefix it shares with the accumulator is \<open>st\<close>;
  yet the accumulator ends as \<open>st.b\<close>, and the line becomes \<open>test.b\<close>.
\<close>

theorem tab_expansion_ignores_suffix_length:
  "tab_collect bin_env False (''te'' @ replicate 14 NUL) 16 2 []
     = (\<lparr>num_matches = 2, cmdline = ''te'' @ replicate 14 NUL, cmdline_insertpos = 2,
         expansion = ''st.b'', candidates = []\<rparr>, [])
 \<and> do_tab_complete bin_env False (''te'' @ replicate 14 NUL) 16 2 []
     = (''test.b'' @ replicate 10 NUL, 6, False, ''st.b'')
 \<and> expansion (fst (notify_tab_expansion bin_env False
       \<lparr>num_matches = 0, cmdline = ''te'' @ replicate 14 NUL, cmdline_insertpos = 2,
         expansion = [], candidates = []\<rparr>
       ExpandNormal ''test.backup.bin'' 11 ''st.backup.bin'' 9 [])) = ''st.backup''
 \<and> expansion (fst (notify_tab_expansion bin_env False
       \<lparr>num_matches = 0, cmdline = ''te'' @ replicate 14 NUL, cmdline_insertpos = 2,
         expansion = [], candidates = []\<rparr>
       ExpandNormal ''test.bin'' 4 ''st.bin'' 2 [])) = ''st''
 \<and> truncate_expansion ''st.backup'' ''st'' = ''st''
 \<and> expansion (fst (notify_tab_expansion bin_env False
       \<lparr>num_matches = 1, cmdline = ''te'' @ replicate 14 NUL, cmdline_insertpos = 2,
         expansion = ''st.backup'', candidates = []\<rparr>
       ExpandNormal ''test.bin'' 4 ''st.bin'' 2 [])) = ''st.b''"
proof -
  have e: "expansion_size bin_env = 128" by (simp add: bin_env_def example_env_def)
  have "expansion (fst (notify_tab_expansion bin_env False
       \<lparr>num_matches = 0, cmdline = ''te'' @ replicate 14 NUL, cmdline_insertpos = 2,
         expansion = [], candidates = []\<rparr>
       ExpandNormal ''test.backup.bin'' 11 ''st.backup.bin'' 9 [])) = ''st.backup''"
    by (simp add: notify_tab_expansion_fields size_t_of_def e cstr_def)
  moreover have "expansion (fst (notify_tab_expansion bin_env False
       \<lparr>num_matches = 0, cmdline = ''te'' @ replicate 14 NUL, cmdline_insertpos = 2,
         expansion = [], candidates = []\<rparr>
       ExpandNormal ''test.bin'' 4 ''st.bin'' 2 [])) = ''st''"
    by (simp add: notify_tab_expansion_fields size_t_of_def e cstr_def)
  moreover have "truncate_expansion ''st.backup'' ''st'' = ''st''"
    by (simp add: toupper_bin_simps)
  moreover have "expansion (fst (notify_tab_expansion bin_env False
       \<lparr>num_matches = 1, cmdline = ''te'' @ replicate 14 NUL, cmdline_insertpos = 2,
         expansion = ''st.backup'', candidates = []\<rparr>
       ExpandNormal ''test.bin'' 4 ''st.bin'' 2 [])) = ''st.b''"
    by (simp add: notify_tab_expansion_fields toupper_bin_simps)
  ultimately show ?thesis
    using tab_collect_bin_example do_tab_complete_bin_example by simp
qed


section \<open>C4: inserting the completion\<close>






















section \<open>C2: the exit key\<close>

lemma ascii_key_keyr_eq:
  "st_keyr (fst (ascii_key env n enableTab keya st))
     = (if keya = CHR 0x0D \<or> keya = CHR 0x1B then keya else st_keyr st)"
proof (cases "keya = CHR 0x0D \<or> keya = CHR 0x1B")
  case True
  then show ?thesis by (auto simp: ascii_key_def Let_def)
next
  case False
  then show ?thesis by (simp add: ascii_key_def Let_def case_prod_beta)
qed

lemma key_action_keyr_fst:
  "st_keyr (fst (key_action env n enableTab enableHotkeys ev st)) = st_keyr st
       \<or> ((st_keyr (fst (key_action env n enableTab enableHotkeys ev st)) = CHR 0x0D
            \<or> st_keyr (fst (key_action env n enableTab enableHotkeys ev st)) = CHR 0x1B)
          \<and> (ascii ev = st_keyr (fst (key_action env n enableTab enableHotkeys ev st))
             \<or> (st_keyr (fst (key_action env n enableTab enableHotkeys ev st)) = CHR 0x0D
                \<and> fkey_of (vkey ev) \<noteq> None)))"
  by (cases "vkey ev")
     (simp_all add: key_action_def Let_def case_prod_beta ascii_key_keyr_eq)

lemma history_action_keyr:
  assumes "history_action env n ha st = Some st'"
  shows "st_keyr st' = st_keyr st"
proof -
  consider "ha = 1" | "ha = 2 \<or> ha = 3" "ha \<noteq> 1" | "ha \<noteq> 1" "ha \<noteq> 2" "ha \<noteq> 3"
    by blast
  then show ?thesis
  proof cases
    case 1
    then show ?thesis using assms by (auto simp: history_action_def Let_def)
  next
    case 2
    define r where "r = (if ha = 2
               then editHistoryUp (active_console env) (st_hist st) (st_buffer st) n
                      (st_insertPos st) (st_len st) (st_out st)
               else editHistoryDown (active_console env) (st_hist st) (st_buffer st) n
                      (st_insertPos st) (st_len st) (st_out st))"
    have eq: "history_action env n ha st =
        (case r of None \<Rightarrow> None
         | Some (lineChanged, h, b, out') \<Rightarrow>
             Some (if lineChanged
                   then st\<lparr>st_hist := h, st_buffer := b, st_out := printf_s b out',
                           st_insertPos := strlen b, st_len := strlen b\<rparr>
                   else st\<lparr>st_hist := h, st_buffer := b, st_out := out'\<rparr>))"
      using 2 unfolding history_action_def Let_def r_def by simp
    show ?thesis
    proof (cases r)
      case None
      then show ?thesis using assms eq by simp
    next
      case (Some t)
      obtain lc h b out' where t: "t = (lc, h, b, out')" by (cases t)
      show ?thesis using assms eq Some t by (cases lc) auto
    qed
  next
    case 3
    then show ?thesis using assms by (simp add: history_action_def Let_def)
  qed
qed

lemma finish_keyr:
  assumes "finish env st = Returns k st'"
  shows "k = st_keyr st \<and> st_keyr st' = k"
proof -
  obtain l1 out1 where c: "cursor_down_loop (scrcols (active_console env))
        (int (st_len st) - int (st_insertPos st)) (st_out st) = (l1, out1)"
    by (cases "cursor_down_loop (scrcols (active_console env))
        (int (st_len st) - int (st_insertPos st)) (st_out st)")
  show ?thesis
  proof (cases "scrcols (active_console env) = 0 \<and> 0 \<le> int (st_len st) - int (st_insertPos st)")
    case True
    then show ?thesis using assms by (simp add: finish_def Let_def)
  next
    case False
    then have "finish env st
        = Returns (st_keyr st) (st\<lparr>st_out := out1 @ replicate (nat l1) (CHR 0x09)\<rparr>)"
      using c by (simp add: finish_def Let_def)
    then show ?thesis using assms by auto
  qed
qed

lemma finish_returns:
  "0 < scrcols (active_console env) \<Longrightarrow> \<exists>k st'. finish env st = Returns k st'"
  by (simp add: finish_def Let_def case_prod_beta)

lemma edit_step_keyr:
  assumes "edit_step env n flags ev st = Some st'"
  shows "st_keyr st' = st_keyr st
       \<or> ((st_keyr st' = CHR 0x0D \<or> st_keyr st' = CHR 0x1B)
          \<and> (ascii ev = st_keyr st' \<or> (st_keyr st' = CHR 0x0D \<and> fkey_of (vkey ev) \<noteq> None)))"
proof -
  define st0 where "st0 = st\<lparr>st_len := strlen (st_buffer st),
                   st_showall := (if ascii ev \<noteq> CHR 0x09 then False else st_showall st)\<rparr>"
  obtain st1 ha where ka: "key_action env n (bit flags 1) (\<not> bit flags 2) ev st0 = (st1, ha)"
    by (cases "key_action env n (bit flags 1) (\<not> bit flags 2) ev st0")
  have step: "edit_step env n flags ev st
      = (if \<not> bit flags 3 then history_action env n ha st1 else Some st1)"
    using ka unfolding edit_step_def Let_def st0_def by simp
  have "st_keyr st' = st_keyr st1"
  proof (cases "bit flags 3")
    case True
    then show ?thesis using assms step by simp
  next
    case False
    then have "history_action env n ha st1 = Some st'" using assms step by simp
    then show ?thesis by (rule history_action_keyr)
  qed
  moreover have "st1 = fst (key_action env n (bit flags 1) (\<not> bit flags 2) ev st0)"
    using ka by simp
  moreover have "st_keyr st0 = st_keyr st" by (simp add: st0_def)
  ultimately show ?thesis
    using key_action_keyr_fst [of env n "bit flags 1" "\<not> bit flags 2" ev st0] by simp
qed

lemma edit_loop_returns:
  "st_keyr st = NUL \<Longrightarrow> edit_loop env n flags evs st = Returns k st' \<Longrightarrow>
   (k = CHR 0x0D \<or> k = CHR 0x1B) \<and> st_keyr st' = k
   \<and> (\<exists>pre ev post. evs = pre @ ev # post
         \<and> (ascii ev = k \<or> (k = CHR 0x0D \<and> fkey_of (vkey ev) \<noteq> None)))"
proof (induction evs arbitrary: st)
  case Nil
  then show ?case by simp
next
  case (Cons ev evs)
  from Cons.prems(2) obtain s1 where step: "edit_step env n flags ev st = Some s1"
    by (cases "edit_step env n flags ev st") simp_all
  show ?case
  proof (cases "st_keyr s1 = NUL")
    case True
    then have "edit_loop env n flags evs s1 = Returns k st'"
      using Cons.prems(2) step by simp
    from Cons.IH [OF True this] obtain pre e post where
      k: "(k = CHR 0x0D \<or> k = CHR 0x1B) \<and> st_keyr st' = k"
      and split: "evs = pre @ e # post"
      and e: "ascii e = k \<or> (k = CHR 0x0D \<and> fkey_of (vkey e) \<noteq> None)"
      by blast
    have "ev # evs = (ev # pre) @ e # post" using split by simp
    with k e show ?thesis by blast
  next
    case False
    then have "finish env s1 = Returns k st'"
      using Cons.prems(2) step by simp
    then have k: "k = st_keyr s1" "st_keyr st' = k" using finish_keyr by blast+
    from edit_step_keyr [OF step] False Cons.prems(1)
    have "(k = CHR 0x0D \<or> k = CHR 0x1B)
        \<and> (ascii ev = k \<or> (k = CHR 0x0D \<and> fkey_of (vkey ev) \<noteq> None))"
      using k by auto
    moreover have "ev # evs = [] @ ev # evs" by simp
    ultimately show ?thesis using k by blast
  qed
qed

lemma edit_step_without_history:
  "bit flags 3 \<Longrightarrow>
   edit_step env n flags ev st
     = Some (fst (key_action env n (bit flags 1) (\<not> bit flags 2) ev
                    (st\<lparr>st_len := strlen (st_buffer st),
                         st_showall := (if ascii ev \<noteq> CHR 0x09 then False else st_showall st)\<rparr>)))"
  unfolding edit_step_def Let_def by (simp add: case_prod_beta)

lemma exit_event_sets_keyr:
  assumes "vkey ev = VK_OTHER" "ascii ev = CHR 0x0D \<or> ascii ev = CHR 0x1B"
  shows "st_keyr (fst (key_action env n enableTab enableHotkeys ev st)) = ascii ev"
proof -
  have "key_action env n enableTab enableHotkeys ev st = ascii_key env n enableTab (ascii ev) st"
    using assms(1) by (simp add: key_action_def)
  then show ?thesis using assms(2) by (simp add: ascii_key_keyr_eq)
qed

text \<open>
  With the history disabled (no entry is read) and a console that has columns, the call
  returns once an Enter or an Escape arrives as an ordinary key.
\<close>

lemma mos_EDITLINE_returns_on_exit_key:
  assumes "0 < scrcols (active_console env)" and "bit flags 3"
      and "\<exists>ev \<in> set evs. vkey ev = VK_OTHER \<and> (ascii ev = CHR 0x0D \<or> ascii ev = CHR 0x1B)"
  shows "\<exists>k st. mos_EDITLINE env buffer n flags h out evs = Returns k st"
proof -
  have loop: "\<exists>k st'. edit_loop env n flags evs st = Returns k st'" for st
    using assms(3)
  proof (induction evs arbitrary: st)
    case Nil
    then show ?case by simp
  next
    case (Cons ev evs)
    let ?s1 = "fst (key_action env n (bit flags 1) (\<not> bit flags 2) ev
                    (st\<lparr>st_len := strlen (st_buffer st),
                         st_showall := (if ascii ev \<noteq> CHR 0x09 then False else st_showall st)\<rparr>))"
    have step: "edit_step env n flags ev st = Some ?s1"
      by (rule edit_step_without_history [OF assms(2)])
    show ?case
    proof (cases "st_keyr ?s1 = NUL")
      case False
      then show ?thesis using step finish_returns [OF assms(1)] by simp
    next
      case True
      have "\<not> (vkey ev = VK_OTHER \<and> (ascii ev = CHR 0x0D \<or> ascii ev = CHR 0x1B))"
        using True exit_event_sets_keyr [of ev env n "bit flags 1" "\<not> bit flags 2"] by auto
      then have "\<exists>ev \<in> set evs. vkey ev = VK_OTHER \<and> (ascii ev = CHR 0x0D \<or> ascii ev = CHR 0x1B)"
        using Cons.prems by auto
      from Cons.IH [OF this, of ?s1] show ?thesis using step True by simp
    qed
  qed
  show ?thesis
    using loop by (simp add: mos_EDITLINE_def Let_def)
qed

text \<open>
  C2. Whenever \<^verbatim>\<open>mos_EDITLINE\<close> returns, for any events and any flags, the value is
  Enter (0x0D) or Escape (0x1B); it is the value of \<^verbatim>\<open>keyr\<close> on which the loop ended,
  and it comes from one of the events: the ASCII code of that event, or the Enter that
  a function key whose hotkey expanded stands for.
\<close>

theorem mos_EDITLINE_exit_key:
  assumes "mos_EDITLINE env buffer bufferLength flags h out evs = Returns keyr st"
  shows "(keyr = CHR 0x0D \<or> keyr = CHR 0x1B) \<and> st_keyr st = keyr
       \<and> (\<exists>pre ev post. evs = pre @ ev # post
             \<and> (ascii ev = keyr \<or> (keyr = CHR 0x0D \<and> fkey_of (vkey ev) \<noteq> None)))"
proof -
  obtain st0 where init: "mos_EDITLINE env buffer bufferLength flags h out evs
        = edit_loop env bufferLength flags evs st0" and k0: "st_keyr st0 = NUL"
    by (cases "bit flags 0") (simp_all add: mos_EDITLINE_def Let_def)
  from edit_loop_returns [OF k0] assms init show ?thesis by simp
qed

theorem mos_EDITLINE_exit_key_witness:
  "mos_EDITLINE example_env (replicate 16 NUL) 16 3 (editHistoryInit 16) []
     [\<lparr>ascii = CHR ''C'', vkey = VK_OTHER\<rparr>, \<lparr>ascii = CHR 0x0D, vkey = VK_OTHER\<rparr>]
   = Returns (CHR 0x0D)
       \<lparr>st_buffer = ''C'' @ replicate 15 NUL, st_insertPos = 1, st_len = 1, st_keyr = CHR 0x0D,
        st_hist = \<lparr>cmd_history = Some ''C'' # replicate 15 None, history_size = 1, history_no = 0\<rparr>,
        st_showall = False, st_out = ''C''\<rparr>
 \<and> st_keyr \<lparr>st_buffer = ''C'' @ replicate 15 NUL, st_insertPos = 1, st_len = 1, st_keyr = CHR 0x0D,
        st_hist = \<lparr>cmd_history = Some ''C'' # replicate 15 None, history_size = 1, history_no = 0\<rparr>,
        st_showall = False, st_out = ''C''\<rparr> = CHR 0x0D"
proof -
  let ?st0 = "\<lparr>st_buffer = replicate 16 NUL, st_insertPos = 0, st_len = 0,
        st_keyr = NUL, st_hist = editHistoryInit 16, st_showall = False, st_out = []\<rparr>"
  let ?st1 = "\<lparr>st_buffer = ''C'' @ replicate 15 NUL, st_insertPos = 1, st_len = 0,
        st_keyr = NUL, st_hist = editHistoryInit 16, st_showall = False, st_out = ''C''\<rparr>"
  let ?st2 = "\<lparr>st_buffer = ''C'' @ replicate 15 NUL, st_insertPos = 1, st_len = 1, st_keyr = CHR 0x0D,
        st_hist = \<lparr>cmd_history = Some ''C'' # replicate 15 None, history_size = 1, history_no = 0\<rparr>,
        st_showall = False, st_out = ''C''\<rparr>"
  let ?evs = "[\<lparr>ascii = CHR ''C'', vkey = VK_OTHER\<rparr>, \<lparr>ascii = CHR 0x0D, vkey = VK_OTHER\<rparr>]"
  have s1: "edit_step example_env 16 3 \<lparr>ascii = CHR ''C'', vkey = VK_OTHER\<rparr> ?st0 = Some ?st1"
    by (simp add: edit_step_def key_action_def ascii_key_def history_action_def
        insertCharacter_def strnlen_def strlen_def cstr_def putch_def Let_def example_env_def
        numeral_eq_Suc bit_0)
  have push: "editHistoryPush (\<lambda>n. True) 16 (editHistoryInit 16) (''C'' @ replicate 15 NUL) 16
        = Some \<lparr>cmd_history = Some ''C'' # replicate 15 None, history_size = 1, history_no = 0\<rparr>"
    by (simp add: editHistoryPush_def editHistoryInit_def history_store_def mos_strndup_def
        strnlen_def strlen_def cstr_def Let_def numeral_eq_Suc)
  have flags: "bit (3::nat) (Suc 0)" "\<not> bit (3::nat) 2" "\<not> bit (3::nat) 3"
    by (simp_all add: bit_iff_odd)
  have s2: "edit_step example_env 16 3 \<lparr>ascii = CHR 0x0D, vkey = VK_OTHER\<rparr> ?st1 = Some ?st2"
    by (simp add: edit_step_def key_action_def ascii_key_def history_action_def flags Let_def
        example_env_def push [simplified] strlen_def cstr_def)
  have "cursor_down_loop 80 0 ''C'' = (0, ''C'')"
    by (subst cursor_down_loop.simps) simp
  then have f: "finish example_env ?st2 = Returns (CHR 0x0D) ?st2"
    by (simp add: finish_def example_env_def Let_def)
  have "(replicate 16 NUL)[0 := NUL] = replicate 16 NUL"
    by (simp add: list_eq_iff_nth_eq nth_list_update)
  then have init: "mos_EDITLINE example_env (replicate 16 NUL) 16 3 (editHistoryInit 16) [] ?evs
        = edit_loop example_env 16 3 ?evs ?st0"
    by (simp add: mos_EDITLINE_def bit_0 editHistoryInit_def Let_def)
  have "edit_loop example_env 16 3 ?evs ?st0 = finish example_env ?st2"
    using edit_loop_continue [OF s1] edit_loop_exit [OF s2] by simp
  then have run: "mos_EDITLINE example_env (replicate 16 NUL) 16 3 (editHistoryInit 16) [] ?evs
        = Returns (CHR 0x0D) ?st2"
    using init f by simp
  from mos_EDITLINE_exit_key [OF run] run show ?thesis by blast
qed

end
